theory Spec2Isabelle
  imports Main "HOL-Library.Word"
begin

section \<open>The exit-group stressor (stress-exit-group.c)\<close>

text \<open>
  The forked child of the exit-group stressor creates up to
  \<open>STRESS_PTHREAD_EXIT_GROUP_MAX\<close> pthreads while holding the mutex, releases the mutex,
  waits until the threads have registered in \<open>pthread_count\<close> (or until it is bored), and
  leaves through \<open>exit_group(0)\<close> on every path. What the operating system and the rest of
  stress-ng answer (the return value of \<open>pthread_create\<close>, whether SIGALRM is pending,
  \<open>keep_stressing(args)\<close>, the value of \<open>pthread_count\<close> read by the main thread) is an
  input of the model, indexed by the loop counter of the loop that asks.
\<close>

definition STRESS_PTHREAD_EXIT_GROUP_MAX :: nat where
  "STRESS_PTHREAD_EXIT_GROUP_MAX = 16"

text \<open>The value of \<open>EAGAIN\<close> in the Linux errno.h.\<close>

definition EAGAIN :: int where
  "EAGAIN = 11"

text \<open>A line written by \<open>pr_fail\<close>: the failing primitive and the error number.\<close>

datatype fail_msg = Pthread_create_failed int | Pthread_mutex_init_failed int

text \<open>
  The run flag \<open>keep_running_flag\<close> is shared by the main thread and the pthreads. The
  main thread's view of the child adds the table \<open>pthreads[i].ret\<close> and three counters
  of what the main thread has done: the calls of \<open>pthread_create\<close>, the calls of
  \<open>stress_exit_group_sleep\<close>, and the lines of \<open>pr_fail\<close>.
\<close>

record statics =
  keep_running_flag :: bool

record child = statics +
  pthread_rets :: "int list"
  creates :: nat
  sleeps :: nat
  fails :: "fail_msg list"

definition stop_running :: "'a statics_scheme \<Rightarrow> 'a statics_scheme" where
  "stop_running s = s\<lparr>keep_running_flag := False\<rparr>"

text \<open>\<open>keep_running\<close>, given the answer of \<open>stress_sigalrm_pending\<close>.\<close>

definition keep_running :: "bool \<Rightarrow> 'a statics_scheme \<Rightarrow> bool \<times> 'a statics_scheme" where
  "keep_running pending s =
     (let s' = (if pending then stop_running s else s) in (keep_running_flag s', s'))"

definition stress_exit_group_sleep :: "child \<Rightarrow> child" where
  "stress_exit_group_sleep s = s\<lparr>sleeps := Suc (sleeps s)\<rparr>"

text \<open>What the creation loop is answered at index \<open>i\<close>.\<close>

record create_env =
  create_ret :: "nat \<Rightarrow> int"
  sigalrm_pending :: "nat \<Rightarrow> bool"
  keep_stressing :: "nat \<Rightarrow> bool"

text \<open>
  The creation loop either leaves with the loop index \<open>i\<close> (by \<open>break\<close> or by its
  condition), or takes the fatal path: \<open>pr_fail\<close>, \<open>stop_running\<close>, \<open>exit_group(0)\<close>.
\<close>

datatype create_result = Proceed nat child | Fatal child

function create_loop :: "create_env \<Rightarrow> nat \<Rightarrow> child \<Rightarrow> create_result" where
  "create_loop e i s =
     (if i < STRESS_PTHREAD_EXIT_GROUP_MAX then
        (let r = create_ret e i;
             s1 = s\<lparr>pthread_rets := (pthread_rets s)[i := r], creates := Suc (creates s)\<rparr>
         in if r \<noteq> 0 then
              (if r = EAGAIN then Proceed i s1
               else Fatal (stop_running (s1\<lparr>fails := fails s1 @ [Pthread_create_failed r]\<rparr>)))
            else
              (case keep_running (sigalrm_pending e i) s1 of
                 (kr, s2) \<Rightarrow>
                   if \<not> (kr \<and> keep_stressing e i) then Proceed i s2
                   else create_loop e (Suc i) s2))
      else Proceed i s)"
  by pat_completeness auto
termination
  by (relation "measure (\<lambda>(e, i, s). STRESS_PTHREAD_EXIT_GROUP_MAX - i)") auto

declare create_loop.simps [simp del]

text \<open>
  The state at the start of the creation loop: the flag set, the table zeroed and then
  every \<open>ret\<close> set to \<open>-1\<close>.
\<close>

definition child_init :: child where
  "child_init =
     \<lparr>keep_running_flag = True,
      pthread_rets = replicate STRESS_PTHREAD_EXIT_GROUP_MAX (- 1),
      creates = 0, sleeps = 0, fails = []\<rparr>"

text \<open>The threads that exist: the entries of the table whose \<open>pthread_create\<close> returned 0.\<close>

definition created :: "child \<Rightarrow> nat" where
  "created s = length (filter (\<lambda>r. r = 0) (pthread_rets s))"

text \<open>
  An index at which the loop goes round: the thread is created, SIGALRM is not pending
  and \<open>keep_stressing(args)\<close> holds.
\<close>

definition ok_at :: "create_env \<Rightarrow> nat \<Rightarrow> bool" where
  "ok_at e j = (create_ret e j = 0 \<and> \<not> sigalrm_pending e j \<and> keep_stressing e j)"

subsection \<open>Waiting for the threads\<close>

text \<open>
  What the waiting loop is answered at poll \<open>j\<close>: \<open>keep_stressing(args)\<close> and the
  value of \<open>pthread_count\<close> that the main thread reads.
\<close>

record wait_env =
  wait_keep_stressing :: "nat \<Rightarrow> bool"
  pthread_count_seen :: "nat \<Rightarrow> 64 word"

text \<open>
  The three ways out of the loop \<open>for (j = 0; j < 1000; j++)\<close>: \<open>all_running\<close> was
  found true, \<open>keep_stressing(args)\<close> was found false, or the thousand polls are used up.
  Every one of them ends in \<open>exit_group(0)\<close>. The loop returns the way out, the value of
  \<open>j\<close> and the state.
\<close>

datatype wait_result = All_running | Stop_requested | Bored

function wait_loop :: "wait_env \<Rightarrow> nat \<Rightarrow> nat \<Rightarrow> child \<Rightarrow> wait_result \<times> nat \<times> child" where
  "wait_loop q i j s =
     (if j < 1000 then
        (if \<not> wait_keep_stressing q j then (Stop_requested, j, stop_running s)
         else if pthread_count_seen q j = of_nat i then (All_running, j, s)
         else wait_loop q i (Suc j) (stress_exit_group_sleep s))
      else (Bored, j, s))"
  by pat_completeness auto
termination
  by (relation "measure (\<lambda>(q, i, j, s). 1000 - j)") auto

declare wait_loop.simps [simp del]

subsection \<open>The pthreads\<close>

text \<open>
  \<open>stress_exit_group_func\<close> is run by every pthread, and the pthreads run concurrently, so
  the function is embedded as a machine that the scheduler steps. The places of a pthread
  are: before \<open>pthread_mutex_lock\<close>; holding the mutex, before the read of
  \<open>pthread_count\<close>; holding the value read, before the write of \<open>pthread_count\<close> (the
  two halves of \<open>pthread_count++\<close>); before \<open>pthread_mutex_unlock\<close>; at the test of the
  \<open>while\<close> loop; and in \<open>exit_group\<close>.
\<close>

datatype place = At_lock | At_read | At_write "64 word" | At_unlock | At_while | At_exit

datatype owner = Nobody | Main_thread | Pthread nat

text \<open>
  The process: the statics of the file, the owner of the mutex, the place of each pthread,
  how many times each pthread has written \<open>pthread_count\<close>, how often each pthread has
  slept, and whether \<open>exit_group\<close> has ended the process.
\<close>

record process = statics +
  pthread_count :: "64 word"
  mutex :: owner
  places :: "place list"
  writes :: "nat list"
  naps :: "nat list"
  exited :: bool

text \<open>
  One step of pthread \<open>t\<close>. \<open>r\<close> is what \<open>pthread_mutex_lock\<close> returns if the step
  is that call and the call does not block: the call blocks while another thread owns
  the mutex, and a non-zero return skips the increment. The return value of
  \<open>pthread_mutex_unlock\<close> is ignored by the source.
\<close>

definition stress_exit_group_func :: "nat \<Rightarrow> int \<Rightarrow> process \<Rightarrow> process" where
  "stress_exit_group_func t r p =
     (case places p ! t of
        At_lock \<Rightarrow>
          if r \<noteq> 0 then p\<lparr>places := (places p)[t := At_while]\<rparr>
          else if mutex p = Nobody
               then p\<lparr>mutex := Pthread t, places := (places p)[t := At_read]\<rparr>
               else p
      | At_read \<Rightarrow> p\<lparr>places := (places p)[t := At_write (pthread_count p)]\<rparr>
      | At_write v \<Rightarrow>
          p\<lparr>pthread_count := v + 1, places := (places p)[t := At_unlock],
            writes := (writes p)[t := Suc (writes p ! t)]\<rparr>
      | At_unlock \<Rightarrow> p\<lparr>mutex := Nobody, places := (places p)[t := At_while]\<rparr>
      | At_while \<Rightarrow>
          if keep_running_flag p \<and> pthread_count p < of_nat STRESS_PTHREAD_EXIT_GROUP_MAX
          then p\<lparr>naps := (naps p)[t := Suc (naps p ! t)]\<rparr>
          else p\<lparr>places := (places p)[t := At_exit], exited := True\<rparr>
      | At_exit \<Rightarrow> p)"

text \<open>
  What the scheduler can do next: run one step of a pthread, or let the main thread
  release the mutex (line 152), clear the run flag (\<open>stop_running\<close>), or leave by
  \<open>exit_group\<close>. After \<open>exit_group\<close> nothing runs.
\<close>

datatype sched = Run_pthread nat int | Main_unlock | Main_stop_running | Main_exit_group

definition sched_step :: "sched \<Rightarrow> process \<Rightarrow> process" where
  "sched_step x p =
     (if exited p then p
      else case x of
        Run_pthread t r \<Rightarrow> if t < length (places p) then stress_exit_group_func t r p else p
      | Main_unlock \<Rightarrow> if mutex p = Main_thread then p\<lparr>mutex := Nobody\<rparr> else p
      | Main_stop_running \<Rightarrow> stop_running p
      | Main_exit_group \<Rightarrow> p\<lparr>exited := True\<rparr>)"

text \<open>A schedule is run from left to right.\<close>

definition run_sched :: "sched list \<Rightarrow> process \<Rightarrow> process" where
  "run_sched xs p = fold sched_step xs p"

text \<open>
  The process when the main thread has created \<open>n\<close> pthreads: it still owns the mutex,
  \<open>pthread_count\<close> is 0 and no pthread has run.
\<close>

definition process_init :: "nat \<Rightarrow> process" where
  "process_init n =
     \<lparr>keep_running_flag = True, pthread_count = 0, mutex = Main_thread,
      places = replicate n At_lock, writes = replicate n 0, naps = replicate n 0,
      exited = False\<rparr>"

subsection \<open>Concrete environments\<close>

text \<open>Two threads are created, the third \<open>pthread_create\<close> returns \<open>EAGAIN\<close>.\<close>

definition env_two_then_eagain :: create_env where
  "env_two_then_eagain =
     \<lparr>create_ret = (\<lambda>i. if i < 2 then 0 else EAGAIN),
      sigalrm_pending = (\<lambda>i. False),
      keep_stressing = (\<lambda>i. True)\<rparr>"

text \<open>The state in which that creation loop is left.\<close>

definition child_two_then_eagain :: child where
  "child_two_then_eagain =
     child_init\<lparr>pthread_rets := [0, 0, EAGAIN] @ replicate 13 (- 1), creates := 3\<rparr>"

text \<open>The count read is 1 at the first poll and 2 from then on; no stop is asked.\<close>

definition wait_env_late :: wait_env where
  "wait_env_late =
     \<lparr>wait_keep_stressing = (\<lambda>j. True),
      pthread_count_seen = (\<lambda>j. if j = 0 then 1 else 2)\<rparr>"

text \<open>Both threads have registered, and \<open>keep_stressing(args)\<close> is false.\<close>

definition wait_env_stopped :: wait_env where
  "wait_env_stopped =
     \<lparr>wait_keep_stressing = (\<lambda>j. False), pthread_count_seen = (\<lambda>j. 2)\<rparr>"

text \<open>The first thread is created, and then SIGALRM is found pending.\<close>

definition env_one_then_pending :: create_env where
  "env_one_then_pending =
     \<lparr>create_ret = (\<lambda>i. 0), sigalrm_pending = (\<lambda>i. True), keep_stressing = (\<lambda>i. True)\<rparr>"

text \<open>The state in which that creation loop is left, by the \<open>break\<close> of line 150.\<close>

definition child_one_then_pending :: child where
  "child_one_then_pending =
     child_init\<lparr>keep_running_flag := False,
                pthread_rets := 0 # replicate 15 (- 1), creates := 1\<rparr>"

text \<open>No thread has registered yet; no stop is asked.\<close>

definition wait_env_none_started :: wait_env where
  "wait_env_none_started =
     \<lparr>wait_keep_stressing = (\<lambda>j. True), pthread_count_seen = (\<lambda>j. 0)\<rparr>"

subsection \<open>The invariant of the process\<close>

text \<open>
  What holds of pthread \<open>t\<close> at each place: it owns the mutex exactly between the lock
  and the unlock, it has not written before its write and has written once after it, and
  the value it holds for the write is the current count.
\<close>

definition place_ok :: "process \<Rightarrow> nat \<Rightarrow> bool" where
  "place_ok p t =
     (case places p ! t of
        At_lock \<Rightarrow> mutex p \<noteq> Pthread t \<and> writes p ! t = 0
      | At_read \<Rightarrow> mutex p = Pthread t \<and> writes p ! t = 0
      | At_write v \<Rightarrow> mutex p = Pthread t \<and> writes p ! t = 0 \<and> v = pthread_count p
      | At_unlock \<Rightarrow> mutex p = Pthread t \<and> writes p ! t = 1
      | At_while \<Rightarrow> mutex p \<noteq> Pthread t \<and> writes p ! t \<le> 1
      | At_exit \<Rightarrow> mutex p \<noteq> Pthread t \<and> writes p ! t \<le> 1)"

text \<open>The count is the number of writes made: no write is lost.\<close>

definition process_inv :: "nat \<Rightarrow> process \<Rightarrow> bool" where
  "process_inv n p =
     (length (places p) = n \<and> length (writes p) = n \<and>
      (\<forall>t<n. place_ok p t) \<and>
      pthread_count p = of_nat (sum_list (writes p)))"

subsection \<open>Concrete schedules\<close>

text \<open>
  Two pthreads: the second tries the lock while the first owns the mutex, and gets it
  after the first has unlocked.
\<close>

definition sched_two_register :: "sched list" where
  "sched_two_register =
     [Main_unlock, Run_pthread 0 0, Run_pthread 1 0, Run_pthread 0 0, Run_pthread 0 0,
      Run_pthread 0 0, Run_pthread 1 0, Run_pthread 1 0, Run_pthread 1 0]"

text \<open>
  One pthread whose \<open>pthread_mutex_lock\<close> returns 22 (\<open>EINVAL\<close>): it sleeps once in the
  loop, the run flag is cleared, and it leaves.
\<close>

definition sched_lock_fails :: "sched list" where
  "sched_lock_fails =
     [Main_unlock, Run_pthread 0 22, Run_pthread 0 0, Main_stop_running, Run_pthread 0 0]"

text \<open>One pthread registers and sleeps once in the loop.\<close>

definition sched_one_registers :: "sched list" where
  "sched_one_registers =
     [Main_unlock, Run_pthread 0 0, Run_pthread 0 0, Run_pthread 0 0, Run_pthread 0 0,
      Run_pthread 0 0]"


text \<open>The run flag is cleared twice more, around the release of the mutex.\<close>

definition sched_set_again :: "sched list" where
  "sched_set_again = [Main_stop_running, Main_unlock, Main_stop_running]"

section \<open>The qsort stressor (stress-qsort.c)\<close>

text \<open>
  \<open>stress_qsort\<close> installs \<open>stress_qsort_handler\<close> for SIGALRM, saves a jump point with
  \<open>sigsetjmp\<close>, fills the buffer once and then sorts it over and over, four calls of
  \<open>qsort\<close> to an iteration, until a check of the stop flag fails or the handler jumps
  back to the jump point. SIGALRM can arrive between any two statements, so the function
  is embedded as a machine over its program points: an input is either the delivery of
  SIGALRM or the execution of the statement at the current point.
\<close>

type_synonym int32 = "32 word"

text \<open>
  The two verification loops. Each walks the buffer over \<open>i < n - 1\<close> and stops at the
  first adjacent pair in the wrong order (read as signed 32-bit values), where it calls
  \<open>pr_fail\<close>. The buffer has at least \<open>MIN_QSORT_SIZE\<close> = 1024 elements, so \<open>n - 1\<close> does
  not wrap.
\<close>

fun sort_error :: "int32 list \<Rightarrow> bool" where
  "sort_error (x # y # zs) = (if sint x > sint y then True else sort_error (y # zs))"
| "sort_error zs = False"

fun reverse_sort_error :: "int32 list \<Rightarrow> bool" where
  "reverse_sort_error (x # y # zs) =
     (if sint x < sint y then True else reverse_sort_error (y # zs))"
| "reverse_sort_error zs = False"

text \<open>The two texts that \<open>pr_fail\<close> is called with (lines 117, and 132 and 149).\<close>

datatype qsort_msg = Sort_error_detected | Reverse_sort_error_detected

text \<open>
  What the function is given: the verify option, the values of \<open>stress_mwc32\<close> that fill
  the buffer, and what the C library's \<open>qsort\<close> makes of the buffer with each of the three
  comparison functions of core-sort.h.
\<close>

record qsort_args =
  verify :: bool
  random_data :: "int32 list"
  qsort_cmp_int32 :: "int32 list \<Rightarrow> int32 list"
  qsort_cmp_rev_int32 :: "int32 list \<Rightarrow> int32 list"
  qsort_cmp_int8 :: "int32 list \<Rightarrow> int32 list"

datatype exit_code = EXIT_SUCCESS | EXIT_FAILURE | EXIT_NO_RESOURCE

text \<open>
  The program points of \<open>stress_qsort\<close>, in the order of the source. \<open>At_jumped\<close> is the
  branch taken when \<open>sigsetjmp\<close> returns non-zero (lines 97 to 103).
  \<open>Undefined_behaviour\<close> is \<open>siglongjmp\<close> on a \<open>jmp_env\<close> that \<open>sigsetjmp\<close> has not filled.
\<close>

datatype qpoint =
    At_calloc | At_sighandler | At_sigsetjmp | At_fill
  | At_sort | At_verify_sort | At_flag1
  | At_rev_sort | At_verify_rev | At_flag2
  | At_byte_sort | At_rev_sort2 | At_verify_rev2 | At_flag3
  | At_inc_counter | At_keep_stressing
  | At_clear_do_jmp | At_sigrestore | At_jumped | At_tidy
  | Returned exit_code | Undefined_behaviour

text \<open>
  The state: the program point, the static \<open>do_jmp\<close>, whether \<open>jmp_env\<close> is filled,
  whether \<open>stress_qsort_handler\<close> is the action of SIGALRM, the buffer, the bogo-op
  counter of \<open>args\<close>, the lines of \<open>pr_fail\<close>, and two counts of what has happened: the
  calls of \<open>qsort\<close> that have returned and the calls of \<open>siglongjmp\<close>.
\<close>

record qsort_state =
  point :: qpoint
  do_jmp :: bool
  jmp_env_set :: bool
  handler_installed :: bool
  data :: "int32 list"
  counter :: nat
  pr_fails :: "qsort_msg list"
  sorts_done :: nat
  jumps :: nat

definition qsort_init :: qsort_state where
  "qsort_init =
     \<lparr>point = At_calloc, do_jmp = True, jmp_env_set = False, handler_installed = False,
      data = [], counter = 0, pr_fails = [], sorts_done = 0, jumps = 0\<rparr>"

text \<open>The handler: if \<open>do_jmp\<close> is set, clear it and jump; otherwise return.\<close>

definition stress_qsort_handler :: "qsort_state \<Rightarrow> qsort_state" where
  "stress_qsort_handler s =
     (if do_jmp s then
        s\<lparr>do_jmp := False, jumps := Suc (jumps s),
          point := (if jmp_env_set s then At_jumped else Undefined_behaviour)\<rparr>
      else s)"

text \<open>
  The statement at the current point. \<open>b\<close> is the answer where the statement asks
  something: whether \<open>calloc\<close> and \<open>stress_sighandler\<close> succeed, and what
  \<open>keep_stressing_flag()\<close> and \<open>keep_stressing(args)\<close> return.
\<close>

definition statement :: "qsort_args \<Rightarrow> bool \<Rightarrow> qsort_state \<Rightarrow> qsort_state" where
  "statement a b s =
     (case point s of
        At_calloc \<Rightarrow> s\<lparr>point := (if b then At_sighandler else Returned EXIT_NO_RESOURCE)\<rparr>
      | At_sighandler \<Rightarrow>
          if b then s\<lparr>handler_installed := True, point := At_sigsetjmp\<rparr>
          else s\<lparr>point := Returned EXIT_FAILURE\<rparr>
      | At_sigsetjmp \<Rightarrow> s\<lparr>jmp_env_set := True, point := At_fill\<rparr>
      | At_fill \<Rightarrow> s\<lparr>data := random_data a, point := At_sort\<rparr>
      | At_sort \<Rightarrow>
          s\<lparr>data := qsort_cmp_int32 a (data s), sorts_done := Suc (sorts_done s),
            point := At_verify_sort\<rparr>
      | At_verify_sort \<Rightarrow>
          (if verify a \<and> sort_error (data s)
           then s\<lparr>pr_fails := pr_fails s @ [Sort_error_detected], point := At_flag1\<rparr>
           else s\<lparr>point := At_flag1\<rparr>)
      | At_flag1 \<Rightarrow> s\<lparr>point := (if \<not> b then At_clear_do_jmp else At_rev_sort)\<rparr>
      | At_rev_sort \<Rightarrow>
          s\<lparr>data := qsort_cmp_rev_int32 a (data s), sorts_done := Suc (sorts_done s),
            point := At_verify_rev\<rparr>
      | At_verify_rev \<Rightarrow>
          (if verify a \<and> reverse_sort_error (data s)
           then s\<lparr>pr_fails := pr_fails s @ [Reverse_sort_error_detected], point := At_flag2\<rparr>
           else s\<lparr>point := At_flag2\<rparr>)
      | At_flag2 \<Rightarrow> s\<lparr>point := (if \<not> b then At_clear_do_jmp else At_byte_sort)\<rparr>
      | At_byte_sort \<Rightarrow>
          s\<lparr>data := qsort_cmp_int8 a (data s), sorts_done := Suc (sorts_done s),
            point := At_rev_sort2\<rparr>
      | At_rev_sort2 \<Rightarrow>
          s\<lparr>data := qsort_cmp_rev_int32 a (data s), sorts_done := Suc (sorts_done s),
            point := At_verify_rev2\<rparr>
      | At_verify_rev2 \<Rightarrow>
          (if verify a \<and> reverse_sort_error (data s)
           then s\<lparr>pr_fails := pr_fails s @ [Reverse_sort_error_detected], point := At_flag3\<rparr>
           else s\<lparr>point := At_flag3\<rparr>)
      | At_flag3 \<Rightarrow> s\<lparr>point := (if \<not> b then At_clear_do_jmp else At_inc_counter)\<rparr>
      | At_inc_counter \<Rightarrow> s\<lparr>counter := Suc (counter s), point := At_keep_stressing\<rparr>
      | At_keep_stressing \<Rightarrow> s\<lparr>point := (if b then At_sort else At_clear_do_jmp)\<rparr>
      | At_clear_do_jmp \<Rightarrow> s\<lparr>do_jmp := False, point := At_sigrestore\<rparr>
      | At_sigrestore \<Rightarrow> s\<lparr>handler_installed := False, point := At_tidy\<rparr>
      | At_jumped \<Rightarrow> s\<lparr>handler_installed := False, point := At_tidy\<rparr>
      | At_tidy \<Rightarrow> s\<lparr>point := Returned EXIT_SUCCESS\<rparr>
      | Returned c \<Rightarrow> s
      | Undefined_behaviour \<Rightarrow> s)"

text \<open>
  An input: SIGALRM is delivered, or the statement at the current point runs. SIGALRM
  reaches \<open>stress_qsort_handler\<close> only while it is installed and the function has not
  ended; the action restored by \<open>stress_sigrestore\<close> is not part of this file.
\<close>

datatype qinput = Sigalrm | Statement bool

definition running :: "qsort_state \<Rightarrow> bool" where
  "running s = (case point s of Returned c \<Rightarrow> False | Undefined_behaviour \<Rightarrow> False | _ \<Rightarrow> True)"

definition qstep :: "qsort_args \<Rightarrow> qinput \<Rightarrow> qsort_state \<Rightarrow> qsort_state" where
  "qstep a x s =
     (case x of
        Sigalrm \<Rightarrow> if handler_installed s \<and> running s then stress_qsort_handler s else s
      | Statement b \<Rightarrow> statement a b s)"

definition stress_qsort :: "qsort_args \<Rightarrow> qinput list \<Rightarrow> qsort_state \<Rightarrow> qsort_state" where
  "stress_qsort a xs s = fold (qstep a) xs s"

text \<open>The points of the \<open>do ... while\<close> loop (lines 111 to 160).\<close>

definition in_loop :: "qpoint \<Rightarrow> bool" where
  "in_loop pt =
     (pt = At_sort \<or> pt = At_verify_sort \<or> pt = At_flag1 \<or> pt = At_rev_sort \<or>
      pt = At_verify_rev \<or> pt = At_flag2 \<or> pt = At_byte_sort \<or> pt = At_rev_sort2 \<or>
      pt = At_verify_rev2 \<or> pt = At_flag3 \<or> pt = At_inc_counter \<or> pt = At_keep_stressing)"

subsection \<open>The invariant of the qsort machine\<close>

text \<open>
  Inside the loop \<open>do_jmp\<close> is set, the handler is installed, the jump point is saved,
  and \<open>k\<close> calls of \<open>qsort\<close> have returned since the last \<open>inc_counter\<close>.
\<close>

definition loop_inv :: "qsort_state \<Rightarrow> nat \<Rightarrow> bool" where
  "loop_inv s k =
     (do_jmp s \<and> handler_installed s \<and> jmp_env_set s \<and>
      sorts_done s = 4 * counter s + k)"

text \<open>What holds at each program point.\<close>

definition point_inv :: "qsort_state \<Rightarrow> bool" where
  "point_inv s =
     (case point s of
        At_calloc \<Rightarrow>
          do_jmp s \<and> \<not> handler_installed s \<and> \<not> jmp_env_set s \<and>
          sorts_done s = 0 \<and> counter s = 0
      | At_sighandler \<Rightarrow>
          do_jmp s \<and> \<not> handler_installed s \<and> \<not> jmp_env_set s \<and>
          sorts_done s = 0 \<and> counter s = 0
      | At_sigsetjmp \<Rightarrow>
          do_jmp s \<and> handler_installed s \<and> \<not> jmp_env_set s \<and>
          sorts_done s = 0 \<and> counter s = 0
      | At_fill \<Rightarrow> loop_inv s 0 \<and> counter s = 0
      | At_sort \<Rightarrow> loop_inv s 0
      | At_verify_sort \<Rightarrow> loop_inv s 1
      | At_flag1 \<Rightarrow> loop_inv s 1
      | At_rev_sort \<Rightarrow> loop_inv s 1
      | At_verify_rev \<Rightarrow> loop_inv s 2
      | At_flag2 \<Rightarrow> loop_inv s 2
      | At_byte_sort \<Rightarrow> loop_inv s 2
      | At_rev_sort2 \<Rightarrow> loop_inv s 3
      | At_verify_rev2 \<Rightarrow> loop_inv s 4
      | At_flag3 \<Rightarrow> loop_inv s 4
      | At_inc_counter \<Rightarrow> loop_inv s 4
      | At_keep_stressing \<Rightarrow> loop_inv s 0
      | At_clear_do_jmp \<Rightarrow> do_jmp s \<and> handler_installed s \<and> jmp_env_set s
      | At_sigrestore \<Rightarrow> \<not> do_jmp s \<and> handler_installed s
      | At_jumped \<Rightarrow> \<not> do_jmp s \<and> handler_installed s \<and> jumps s = 1
      | At_tidy \<Rightarrow> \<not> do_jmp s \<and> \<not> handler_installed s
      | Returned c \<Rightarrow> \<not> handler_installed s \<and> (c = EXIT_SUCCESS \<longrightarrow> \<not> do_jmp s)
      | Undefined_behaviour \<Rightarrow> \<not> do_jmp s \<and> jumps s = 1)"

text \<open>
  At most one jump has been made, none while \<open>do_jmp\<close> is set, and the calls of
  \<open>qsort\<close> that have returned number between four per counted iteration and four more.
\<close>

definition qsort_inv :: "qsort_state \<Rightarrow> bool" where
  "qsort_inv s =
     (jumps s \<le> 1 \<and> (do_jmp s \<longrightarrow> jumps s = 0) \<and>
      4 * counter s \<le> sorts_done s \<and> sorts_done s \<le> 4 * counter s + 4 \<and>
      point_inv s)"

text \<open>
  The part of the state that decides what the function does next: everything but the
  buffer and the lines of \<open>pr_fail\<close>.
\<close>

definition control :: "qsort_state \<Rightarrow> qpoint \<times> bool \<times> bool \<times> bool \<times> nat \<times> nat \<times> nat" where
  "control s =
     (point s, do_jmp s, jmp_env_set s, handler_installed s, counter s, sorts_done s, jumps s)"

subsection \<open>Concrete runs of the qsort stressor\<close>

text \<open>
  A buffer of 1024 zeros, which every \<open>qsort\<close> leaves as it is, with the verify option
  set.
\<close>

definition qsort_args_zero :: qsort_args where
  "qsort_args_zero =
     \<lparr>verify = True, random_data = replicate 1024 0,
      qsort_cmp_int32 = (\<lambda>d. d), qsort_cmp_rev_int32 = (\<lambda>d. d), qsort_cmp_int8 = (\<lambda>d. d)\<rparr>"

text \<open>A \<open>qsort\<close> that returns a buffer whose first two elements are out of order.\<close>

definition qsort_args_faulty :: qsort_args where
  "qsort_args_faulty =
     \<lparr>verify = True, random_data = 2 # 1 # replicate 1022 0,
      qsort_cmp_int32 = (\<lambda>d. d), qsort_cmp_rev_int32 = (\<lambda>d. d), qsort_cmp_int8 = (\<lambda>d. d)\<rparr>"

text \<open>
  \<open>calloc\<close> and \<open>stress_sighandler\<close> succeed, \<open>sigsetjmp\<close> returns 0 and the buffer is
  filled: the function stands before the first \<open>qsort\<close>.
\<close>

definition inputs_to_loop :: "qinput list" where
  "inputs_to_loop = [Statement True, Statement True, Statement True, Statement True]"

text \<open>One whole iteration: the three flag checks succeed and \<open>inc_counter\<close> runs.\<close>

definition inputs_iteration :: "qinput list" where
  "inputs_iteration =
     [Statement True, Statement True, Statement True,
      Statement True, Statement True, Statement True,
      Statement True, Statement True, Statement True, Statement True,
      Statement True]"

text \<open>
  One iteration in which all four sorts and the three verifications run, and the third
  \<open>keep_stressing_flag()\<close> (line 156) returns false; the function then returns.
\<close>

definition inputs_stop_at_flag3 :: "qinput list" where
  "inputs_stop_at_flag3 =
     inputs_to_loop @
     [Statement True, Statement True, Statement True,
      Statement True, Statement True, Statement True,
      Statement True, Statement True, Statement True, Statement False,
      Statement True, Statement True, Statement True]"

text \<open>SIGALRM is delivered when the function stands at the first \<open>qsort\<close>.\<close>

definition inputs_alarm_in_sort :: "qinput list" where
  "inputs_alarm_in_sort = inputs_to_loop @ [Sigalrm]"

text \<open>The first \<open>qsort\<close> has returned: the function stands before the first verification.\<close>

definition inputs_to_verify :: "qinput list" where
  "inputs_to_verify = inputs_to_loop @ [Statement True]"


section \<open>Killing and reaping (core-killpid.h)\<close>

text \<open>
  Modelled from the spec: the lifecycle states of a WorkerHandle (section 3). The header
  core-killpid.h only declares \<open>stress_killpid\<close>, \<open>stress_kill_and_wait\<close> and
  \<open>stress_kill_and_wait_many\<close>; their bodies are missing, so this section follows
  section 4.1 of the specification.
\<close>

datatype lifecycle = Created | Running | Signal_sent | Escalated | Reaped | Start_failed

text \<open>
  Modelled from the spec: the outcome of \<open>kill_and_wait\<close>, a clean stop or a
  forced one.
\<close>

datatype outcome = Reaped_clean | Force_killed

text \<open>
  Modelled from the spec: the result of \<open>kill\<close>: delivered, the entity already
  gone, or a delivery that failed for another reason (reported, not fatal).
\<close>

datatype kill_result = Signalled | Already_gone | Kill_failed

text \<open>
  Modelled from the spec: a WorkerHandle, the identifier and the lifecycle state.
\<close>

record handle =
  pid :: nat
  lifecycle_state :: lifecycle

text \<open>
  Modelled from the spec: what the addressed entity does, which the operating system
  decides: whether it has already exited, whether the delivery of a signal to it fails, and
  after how many poll intervals it has terminated once a given signal is delivered
  (\<open>None\<close>: it ignores that signal).
\<close>

record entity =
  gone :: bool
  delivery_fails :: bool
  stops_after :: "int \<Rightarrow> nat option"

text \<open>
  Modelled from the spec: what \<open>kill_and_wait\<close> does to an entity, in order:
  the signal, each poll for termination, the force-kill, the reaping of the exit status.
\<close>

datatype event = Ev_signal nat int | Ev_poll nat | Ev_force_kill nat | Ev_reap nat

text \<open>
  Modelled from the spec: \<open>kill(handle, signal)\<close>; it never blocks.
\<close>

definition kill :: "entity \<Rightarrow> int \<Rightarrow> kill_result" where
  "kill e signum =
     (if gone e then Already_gone else if delivery_fails e then Kill_failed else Signalled)"

text \<open>
  Modelled from the spec: whether the entity has terminated \<open>t\<close> poll intervals
  after the signal was sent: it was gone already, or the signal was delivered and it has
  stopped by then.
\<close>

definition stopped_at :: "entity \<Rightarrow> int \<Rightarrow> nat \<Rightarrow> bool" where
  "stopped_at e signum t =
     (gone e \<or>
      (kill e signum = Signalled \<and>
       (case stops_after e signum of None \<Rightarrow> False | Some k \<Rightarrow> k \<le> t)))"

text \<open>
  Modelled from the spec: the poll for termination "up to \<open>grace_period\<close>",
  from clock \<open>t\<close>: it returns whether the entity was found stopped, and the
  clock.
\<close>

function wait_from :: "entity \<Rightarrow> int \<Rightarrow> nat \<Rightarrow> nat \<Rightarrow> bool \<times> nat" where
  "wait_from e signum grace t =
     (if stopped_at e signum t then (True, t)
      else if t < grace then wait_from e signum grace (Suc t)
      else (False, t))"
  by pat_completeness auto
termination
  by (relation "measure (\<lambda>(e, signum, grace, t). grace - t)") auto

declare wait_from.simps [simp del]

text \<open>
  Modelled from the spec: the second half of \<open>kill_and_wait\<close>: poll; if the
  entity is still alive when the grace period has elapsed, force-kill it (the handle is
  \<open>Escalated\<close>); reap it before returning.
\<close>

definition wait_and_reap ::
  "handle \<times> entity \<Rightarrow> int \<Rightarrow> nat \<Rightarrow> nat \<Rightarrow> (outcome \<times> handle \<times> event list) \<times> nat" where
  "wait_and_reap he signum grace t =
     (case he of (h, e) \<Rightarrow>
        (case wait_from e signum grace t of
           (True, t') \<Rightarrow>
             ((Reaped_clean, h\<lparr>lifecycle_state := Reaped\<rparr>,
               replicate (Suc (t' - t)) (Ev_poll (pid h)) @ [Ev_reap (pid h)]), t')
         | (False, t') \<Rightarrow>
             ((Force_killed, (h\<lparr>lifecycle_state := Escalated\<rparr>)\<lparr>lifecycle_state := Reaped\<rparr>,
               replicate (Suc (t' - t)) (Ev_poll (pid h)) @
               [Ev_force_kill (pid h), Ev_reap (pid h)]), t')))"

text \<open>
  Modelled from the spec: the first half of \<open>kill_and_wait\<close>: deliver the
  signal (the handle is \<open>Signal_sent\<close>).
\<close>

definition send_signal :: "handle \<times> entity \<Rightarrow> int \<Rightarrow> (handle \<times> entity) \<times> event" where
  "send_signal he signum =
     (case he of (h, e) \<Rightarrow> ((h\<lparr>lifecycle_state := Signal_sent\<rparr>, e), Ev_signal (pid h) signum))"

text \<open>
  Modelled from the spec: \<open>kill_and_wait(handle, signal, grace_period)\<close>.
\<close>

definition kill_and_wait ::
  "handle \<times> entity \<Rightarrow> int \<Rightarrow> nat \<Rightarrow> outcome \<times> handle \<times> event list" where
  "kill_and_wait he signum grace =
     (case send_signal he signum of
        (he', ev) \<Rightarrow>
          (case fst (wait_and_reap he' signum grace 0) of
             (out, h', evs) \<Rightarrow> (out, h', ev # evs)))"

text \<open>
  Modelled from the spec: the wait/reap pass of \<open>kill_and_wait_many\<close> over the
  batch, on one clock that runs on from handle to handle.
\<close>

fun wait_all ::
  "(handle \<times> entity) list \<Rightarrow> int \<Rightarrow> nat \<Rightarrow> nat \<Rightarrow> (outcome \<times> handle \<times> event list) list" where
  "wait_all [] signum grace t = []"
| "wait_all (he # hes) signum grace t =
     (case wait_and_reap he signum grace t of
        (res, t') \<Rightarrow> res # wait_all hes signum grace t')"

text \<open>Modelled from the spec: the outcome and the handle of a result.\<close>

definition result_of :: "outcome \<times> handle \<times> event list \<Rightarrow> outcome \<times> handle" where
  "result_of r = (fst r, fst (snd r))"

text \<open>Modelled from the spec: the events of a result.\<close>

definition events_of :: "outcome \<times> handle \<times> event list \<Rightarrow> event list" where
  "events_of r = snd (snd r)"

text \<open>
  Modelled from the spec: \<open>kill_and_wait_many(handles, signal, grace_period)\<close>:
  signal all handles first, then wait for and reap all handles.
\<close>

definition kill_and_wait_many ::
  "(handle \<times> entity) list \<Rightarrow> int \<Rightarrow> nat \<Rightarrow> (outcome \<times> handle) list \<times> event list" where
  "kill_and_wait_many hes signum grace =
     (let sent = map (\<lambda>he. send_signal he signum) hes;
          waited = wait_all (map fst sent) signum grace 0
      in (map result_of waited, map snd sent @ concat (map events_of waited)))"

text \<open>The events that are signal deliveries.\<close>

definition is_signal :: "event \<Rightarrow> bool" where
  "is_signal ev = (case ev of Ev_signal p s \<Rightarrow> True | _ \<Rightarrow> False)"

subsection \<open>Concrete entities\<close>

text \<open>An entity that stops one poll interval after the signal.\<close>

definition entity_prompt :: entity where
  "entity_prompt = \<lparr>gone = False, delivery_fails = False, stops_after = (\<lambda>s. Some 1)\<rparr>"

text \<open>An entity that ignores the signal.\<close>

definition entity_deaf :: entity where
  "entity_deaf = \<lparr>gone = False, delivery_fails = False, stops_after = (\<lambda>s. None)\<rparr>"

text \<open>An entity to which the delivery of the signal fails.\<close>

definition entity_unreachable :: entity where
  "entity_unreachable = \<lparr>gone = False, delivery_fails = True, stops_after = (\<lambda>s. Some 0)\<rparr>"

text \<open>An entity that has already exited.\<close>

definition entity_gone :: entity where
  "entity_gone = \<lparr>gone = True, delivery_fails = False, stops_after = (\<lambda>s. None)\<rparr>"

text \<open>
  A batch of three: the signal cannot be delivered to the first, the second stops promptly,
  the third has already exited.
\<close>

definition batch_of_three :: "(handle \<times> entity) list" where
  "batch_of_three =
     [(\<lparr>pid = 101, lifecycle_state = Running\<rparr>, entity_unreachable),
      (\<lparr>pid = 102, lifecycle_state = Running\<rparr>, entity_prompt),
      (\<lparr>pid = 103, lifecycle_state = Running\<rparr>, entity_gone)]"

chapter \<open>Properties\<close>

section \<open>Creation of the threads\<close>

lemma keep_running_not_pending [simp]: "keep_running False s = (keep_running_flag s, s)"
  by (simp add: keep_running_def)

lemma create_loop_ok_step:
  assumes "i < STRESS_PTHREAD_EXIT_GROUP_MAX" "ok_at e i" "keep_running_flag s"
  shows "create_loop e i s =
         create_loop e (Suc i)
           (s\<lparr>pthread_rets := (pthread_rets s)[i := 0], creates := Suc (creates s)\<rparr>)"
  using assms by (subst create_loop.simps) (simp add: ok_at_def Let_def)

lemma create_loop_ok_prefix:
  assumes "k \<le> STRESS_PTHREAD_EXIT_GROUP_MAX" "\<forall>j<k. ok_at e j" "keep_running_flag s"
  shows "create_loop e 0 s =
         create_loop e k
           (s\<lparr>pthread_rets := fold (\<lambda>j xs. xs[j := 0]) [0..<k] (pthread_rets s),
              creates := creates s + k\<rparr>)"
  using assms
proof (induction k)
  case 0
  then show ?case by simp
next
  case (Suc k)
  then have "create_loop e 0 s =
             create_loop e k
               (s\<lparr>pthread_rets := fold (\<lambda>j xs. xs[j := 0]) [0..<k] (pthread_rets s),
                  creates := creates s + k\<rparr>)"
    by simp
  also have "\<dots> =
             create_loop e (Suc k)
               (s\<lparr>pthread_rets := fold (\<lambda>j xs. xs[j := 0]) [0..<Suc k] (pthread_rets s),
                  creates := creates s + Suc k\<rparr>)"
    using Suc.prems by (subst create_loop_ok_step) simp_all
  finally show ?case .
qed

lemma fold_zero_replicate:
  "k \<le> n \<Longrightarrow>
   fold (\<lambda>j xs. xs[j := 0]) [0..<k] (replicate n (v::int)) = replicate k 0 @ replicate (n - k) v"
proof (induction k)
  case 0
  then show ?case by simp
next
  case (Suc k)
  then have "n - k = Suc (n - Suc k)" by simp
  with Suc show ?case
    by (simp add: list_update_append replicate_append_same)
qed

text \<open>
  C4. Let the first \<open>k\<close> calls of \<open>pthread_create\<close> succeed (with no stop asked in
  between) and let call \<open>k\<close> fail. If it fails with \<open>EAGAIN\<close>, the loop is left at
  once: \<open>k + 1\<close> calls have been made and no more will be, the child proceeds with the
  \<open>k\<close> threads it has, nothing is written by \<open>pr_fail\<close> and the run flag stays set.
  If it fails with any other error, the child takes the fatal path: the failure is
  reported by \<open>pr_fail\<close>, the run flag is cleared and the thread group is left.
\<close>

theorem creation_failure_handling:
  assumes "k < STRESS_PTHREAD_EXIT_GROUP_MAX"
    and "\<forall>j<k. create_ret e j = 0 \<and> \<not> sigalrm_pending e j \<and> keep_stressing e j"
    and "create_ret e k \<noteq> 0"
  shows "(let s = child_init\<lparr>pthread_rets := replicate k 0 @ create_ret e k #
                                   replicate (STRESS_PTHREAD_EXIT_GROUP_MAX - Suc k) (- 1),
                               creates := Suc k\<rparr>
          in create_loop e 0 child_init =
               (if create_ret e k = EAGAIN then Proceed k s
                else Fatal (s\<lparr>keep_running_flag := False,
                              fails := [Pthread_create_failed (create_ret e k)]\<rparr>))
             \<and> created s = k \<and> creates s = Suc k \<and> fails s = [] \<and> keep_running_flag s)"
proof -
  let ?M = STRESS_PTHREAD_EXIT_GROUP_MAX
  let ?s = "child_init\<lparr>pthread_rets := replicate k 0 @ create_ret e k #
                                   replicate (?M - Suc k) (- 1),
                         creates := Suc k\<rparr>"
  have ok: "\<forall>j<k. ok_at e j" using assms(2) by (simp add: ok_at_def)
  have split: "?M - k = Suc (?M - Suc k)" using assms(1) by simp
  have "create_loop e 0 child_init =
        create_loop e k (child_init\<lparr>pthread_rets := replicate k 0 @ replicate (?M - k) (- 1),
                                     creates := k\<rparr>)"
    using create_loop_ok_prefix [of k e child_init] ok assms(1)
    by (simp add: child_init_def fold_zero_replicate)
  also have "\<dots> =
        (if create_ret e k = EAGAIN then Proceed k ?s
         else Fatal (?s\<lparr>keep_running_flag := False,
                        fails := [Pthread_create_failed (create_ret e k)]\<rparr>))"
    using assms(1,3)
    by (subst create_loop.simps)
       (simp add: Let_def split list_update_append stop_running_def child_init_def)
  finally have run: "create_loop e 0 child_init =
        (if create_ret e k = EAGAIN then Proceed k ?s
         else Fatal (?s\<lparr>keep_running_flag := False,
                        fails := [Pthread_create_failed (create_ret e k)]\<rparr>))" .
  have "created ?s = k"
    using assms(3) by (simp add: created_def)
  moreover have "creates ?s = Suc k \<and> fails ?s = [] \<and> keep_running_flag ?s"
    by (simp add: child_init_def)
  ultimately show ?thesis using run by (simp add: Let_def)
qed

theorem creation_failure_handling_witness:
  "create_loop env_two_then_eagain 0 child_init =
     Proceed 2 (child_init\<lparr>pthread_rets := [0, 0, EAGAIN] @ replicate 13 (- 1), creates := 3\<rparr>)"
  using creation_failure_handling [of 2 env_two_then_eagain]
  by (simp add: env_two_then_eagain_def STRESS_PTHREAD_EXIT_GROUP_MAX_def EAGAIN_def
      numeral_2_eq_2 numeral_3_eq_3 Let_def)

section \<open>Waiting for the threads\<close>

lemma wait_loop_spec:
  assumes "wait_loop q i j s = (r, j', s')" "j \<le> 1000"
  shows "j \<le> j' \<and> j' \<le> 1000 \<and> sleeps s' = sleeps s + (j' - j) \<and>
         (r = All_running \<longleftrightarrow>
            (\<exists>k. j \<le> k \<and> k < 1000 \<and> pthread_count_seen q k = of_nat i \<and>
                 (\<forall>m. j \<le> m \<and> m \<le> k \<longrightarrow> wait_keep_stressing q m)))"
  using assms
proof (induction q i j s rule: wait_loop.induct)
  case (1 q i j s)
  show ?case
  proof (cases "j < 1000")
    case False
    with "1.prems" show ?thesis
      by (subst (asm) wait_loop.simps) auto
  next
    case lt: True
    show ?thesis
    proof (cases "wait_keep_stressing q j")
      case False
      with lt "1.prems" have "r = Stop_requested" "j' = j" "s' = stop_running s"
        by (subst (asm) wait_loop.simps; simp)+
      moreover have "\<not> (\<exists>k. j \<le> k \<and> k < 1000 \<and> pthread_count_seen q k = of_nat i \<and>
                 (\<forall>m. j \<le> m \<and> m \<le> k \<longrightarrow> wait_keep_stressing q m))"
        using False by auto
      ultimately show ?thesis using lt by (simp add: stop_running_def)
    next
      case keep: True
      show ?thesis
      proof (cases "pthread_count_seen q j = of_nat i")
        case True
        with lt keep "1.prems" have "r = All_running" "j' = j" "s' = s"
          by (subst (asm) wait_loop.simps; simp)+
        moreover have "\<exists>k. j \<le> k \<and> k < 1000 \<and> pthread_count_seen q k = of_nat i \<and>
                 (\<forall>m. j \<le> m \<and> m \<le> k \<longrightarrow> wait_keep_stressing q m)"
          using True keep lt by (intro exI [of _ j]) auto
        ultimately show ?thesis using lt by simp
      next
        case False
        with lt keep "1.prems" have rec: "wait_loop q i (Suc j) (stress_exit_group_sleep s) = (r, j', s')"
          by (subst (asm) wait_loop.simps) simp
        from "1.IH" [OF lt _ False rec] keep lt
        have ih: "Suc j \<le> j' \<and> j' \<le> 1000 \<and>
            sleeps s' = sleeps (stress_exit_group_sleep s) + (j' - Suc j) \<and>
            (r = All_running \<longleftrightarrow>
               (\<exists>k. Suc j \<le> k \<and> k < 1000 \<and> pthread_count_seen q k = of_nat i \<and>
                 (\<forall>m. Suc j \<le> m \<and> m \<le> k \<longrightarrow> wait_keep_stressing q m)))"
          by simp
        have "(\<exists>k. Suc j \<le> k \<and> k < 1000 \<and> pthread_count_seen q k = of_nat i \<and>
                 (\<forall>m. Suc j \<le> m \<and> m \<le> k \<longrightarrow> wait_keep_stressing q m)) \<longleftrightarrow>
              (\<exists>k. j \<le> k \<and> k < 1000 \<and> pthread_count_seen q k = of_nat i \<and>
                 (\<forall>m. j \<le> m \<and> m \<le> k \<longrightarrow> wait_keep_stressing q m))" (is "?L \<longleftrightarrow> ?R")
        proof
          assume ?L
          then obtain k where k: "Suc j \<le> k" "k < 1000" "pthread_count_seen q k = of_nat i"
            "\<forall>m. Suc j \<le> m \<and> m \<le> k \<longrightarrow> wait_keep_stressing q m" by blast
          have "\<forall>m. j \<le> m \<and> m \<le> k \<longrightarrow> wait_keep_stressing q m"
          proof (intro allI impI)
            fix m assume "j \<le> m \<and> m \<le> k"
            then show "wait_keep_stressing q m"
              using k(4) keep by (cases "m = j") auto
          qed
          with k show ?R by (intro exI [of _ k]) auto
        next
          assume ?R
          then obtain k where k: "j \<le> k" "k < 1000" "pthread_count_seen q k = of_nat i"
            "\<forall>m. j \<le> m \<and> m \<le> k \<longrightarrow> wait_keep_stressing q m" by blast
          from k(3) False have "k \<noteq> j" by auto
          with k show ?L by (intro exI [of _ k]) auto
        qed
        with ih show ?thesis by (auto simp: stress_exit_group_sleep_def)
      qed
    qed
  qed
qed

lemma create_loop_table:
  assumes "create_loop e i s = Proceed i' s'" "i \<le> STRESS_PTHREAD_EXIT_GROUP_MAX"
    "pthread_rets s = replicate i 0 @ replicate (STRESS_PTHREAD_EXIT_GROUP_MAX - i) (- 1)"
  shows "i' \<le> STRESS_PTHREAD_EXIT_GROUP_MAX \<and> sleeps s' = sleeps s \<and>
         (if i' < STRESS_PTHREAD_EXIT_GROUP_MAX
          then pthread_rets s' = replicate i' 0 @ create_ret e i' #
                 replicate (STRESS_PTHREAD_EXIT_GROUP_MAX - Suc i') (- 1) \<and>
               (create_ret e i' = EAGAIN \<or> create_ret e i' = 0)
          else pthread_rets s' = replicate i' 0)"
  using assms
proof (induction e i s rule: create_loop.induct)
  case (1 e i s)
  let ?M = STRESS_PTHREAD_EXIT_GROUP_MAX
  show ?case
  proof (cases "i < ?M")
    case False
    with "1.prems" have "i' = i" "s' = s" "i = ?M"
      by (subst (asm) create_loop.simps; simp)+
    with "1.prems" show ?thesis by simp
  next
    case lt: True
    then have split: "?M - i = Suc (?M - Suc i)" by simp
    let ?s1 = "s\<lparr>pthread_rets := (pthread_rets s)[i := create_ret e i], creates := Suc (creates s)\<rparr>"
    have tab: "pthread_rets ?s1 = replicate i 0 @ create_ret e i # replicate (?M - Suc i) (- 1)"
      using "1.prems"(3) by (simp add: split list_update_append)
    show ?thesis
    proof (cases "create_ret e i = 0")
      case False
      with lt "1.prems"(1) have "create_ret e i = EAGAIN \<and> i' = i \<and> s' = ?s1"
        by (subst (asm) create_loop.simps) (auto simp add: Let_def split: if_splits)
      with lt tab show ?thesis by simp
    next
      case zero: True
      obtain kr s2 where kr: "keep_running (sigalrm_pending e i) ?s1 = (kr, s2)"
        by (cases "keep_running (sigalrm_pending e i) ?s1")
      then have s2: "pthread_rets s2 = pthread_rets ?s1" "sleeps s2 = sleeps s"
        by (auto simp: keep_running_def stop_running_def Let_def split: if_splits)
      show ?thesis
      proof (cases "kr \<and> keep_stressing e i")
        case False
        with lt zero kr "1.prems"(1) have "i' = i \<and> s' = s2"
          by (subst (asm) create_loop.simps) (simp add: Let_def split: if_splits)
        with lt tab s2 zero show ?thesis by simp
      next
        case True
        with lt zero kr "1.prems"(1) have rec: "create_loop e (Suc i) s2 = Proceed i' s'"
          by (subst (asm) create_loop.simps) (simp add: Let_def)
        have tab2: "pthread_rets s2 = replicate (Suc i) 0 @ replicate (?M - Suc i) (- 1)"
          using s2 tab zero by (simp add: replicate_append_same)
        have "\<not> \<not> (kr \<and> keep_stressing e i)" using True by simp
        from "1.IH" [OF lt refl refl _ kr [symmetric] this rec _ tab2] zero lt s2
        show ?thesis by simp
      qed
    qed
  qed
qed

lemma created_table:
  "x \<noteq> 0 \<Longrightarrow> created (s\<lparr>pthread_rets := replicate i 0 @ x # replicate n (- 1)\<rparr>) = i"
  by (simp add: created_def)

lemma create_two_then_eagain:
  "create_loop env_two_then_eagain 0 child_init = Proceed 2 child_two_then_eagain"
  by (simp add: create_loop.simps env_two_then_eagain_def child_two_then_eagain_def
      child_init_def STRESS_PTHREAD_EXIT_GROUP_MAX_def EAGAIN_def Let_def eval_nat_numeral)

lemma create_one_then_pending:
  "create_loop env_one_then_pending 0 child_init = Proceed 0 child_one_then_pending"
  by (simp add: create_loop.simps env_one_then_pending_def child_one_then_pending_def
      child_init_def STRESS_PTHREAD_EXIT_GROUP_MAX_def Let_def keep_running_def stop_running_def
      eval_nat_numeral)

text \<open>
  C3 (amended). The waiting loop polls at most 1000 times, sleeping once after each poll
  that does not end it. When the creation loop ran to its end or was left on \<open>EAGAIN\<close>,
  the waiting loop finds \<open>all_running\<close> exactly when at some poll \<open>k < 1000\<close> the count
  read equals the number of threads created and \<open>keep_stressing(args)\<close> has held at
  every poll up to \<open>k\<close>: a poll at which \<open>keep_stressing(args)\<close> fails ends the wait
  without \<open>all_running\<close>, even when every thread created has registered.
\<close>

theorem quorum_wait:
  assumes "create_loop e 0 child_init = Proceed i s"
  shows "(case wait_loop q i 0 s of
            (r, j, s') \<Rightarrow>
              j \<le> 1000 \<and> sleeps s' = j \<and>
              (i = STRESS_PTHREAD_EXIT_GROUP_MAX \<or> pthread_rets s ! i = EAGAIN \<longrightarrow>
                 (r = All_running \<longleftrightarrow>
                    (\<exists>k<1000. pthread_count_seen q k = of_nat (created s) \<and>
                       (\<forall>m\<le>k. wait_keep_stressing q m)))))"
proof -
  let ?M = STRESS_PTHREAD_EXIT_GROUP_MAX
  have init: "pthread_rets child_init = replicate 0 0 @ replicate (?M - 0) (- 1)"
    by (simp add: child_init_def)
  from create_loop_table [OF assms _ init]
  have tab: "i \<le> ?M" "sleeps s = 0"
    "i < ?M \<Longrightarrow> pthread_rets s = replicate i 0 @ create_ret e i # replicate (?M - Suc i) (- 1)"
    "\<not> i < ?M \<Longrightarrow> pthread_rets s = replicate i 0"
    by (simp_all add: child_init_def split: if_splits)
  obtain r j s' where w: "wait_loop q i 0 s = (r, j, s')"
    by (cases "wait_loop q i 0 s")
  from wait_loop_spec [OF w] tab(2)
  have polls: "j \<le> 1000 \<and> sleeps s' = j"
    and found: "r = All_running \<longleftrightarrow>
           (\<exists>k<1000. pthread_count_seen q k = of_nat i \<and> (\<forall>m\<le>k. wait_keep_stressing q m))"
    by simp_all
  have "created s = i" if "i = ?M \<or> pthread_rets s ! i = EAGAIN"
  proof (cases "i < ?M")
    case True
    with that tab(3) have "create_ret e i = EAGAIN"
      by (simp add: nth_append)
    with tab(3) [OF True] show ?thesis
      by (simp add: created_def EAGAIN_def)
  next
    case False
    with tab(4) show ?thesis by (simp add: created_def)
  qed
  with found have "i = ?M \<or> pthread_rets s ! i = EAGAIN \<longrightarrow>
      (r = All_running \<longleftrightarrow>
         (\<exists>k<1000. pthread_count_seen q k = of_nat (created s) \<and>
            (\<forall>m\<le>k. wait_keep_stressing q m)))"
    by simp
  with polls show ?thesis using w by simp
qed

theorem quorum_wait_witness:
  "pthread_rets child_two_then_eagain ! 2 = EAGAIN \<and>
   created child_two_then_eagain = 2 \<and>
   wait_loop wait_env_late 2 0 child_two_then_eagain =
     (All_running, 1, child_two_then_eagain\<lparr>sleeps := 1\<rparr>) \<and>
   (\<exists>k<1000. pthread_count_seen wait_env_late k = of_nat (created child_two_then_eagain) \<and>
      (\<forall>m\<le>k. wait_keep_stressing wait_env_late m))"
  using quorum_wait [OF create_two_then_eagain, of wait_env_late]
  by (simp add: wait_loop.simps wait_env_late_def stress_exit_group_sleep_def
      child_two_then_eagain_def child_init_def EAGAIN_def created_def)

theorem quorum_wait_counterexample:
  "create_loop env_two_then_eagain 0 child_init = Proceed 2 child_two_then_eagain \<and>
   created child_two_then_eagain = 2 \<and>
   pthread_count_seen wait_env_stopped 0 = of_nat (created child_two_then_eagain) \<and>
   wait_loop wait_env_stopped 2 0 child_two_then_eagain =
     (Stop_requested, 0, stop_running child_two_then_eagain)"
  by (simp add: create_two_then_eagain wait_loop.simps wait_env_stopped_def created_def
      child_two_then_eagain_def EAGAIN_def)

text \<open>
  The statement above does not cover a creation loop left by the \<open>break\<close> of line 150.
  There the thread of index \<open>i\<close> exists, so \<open>i\<close> is one less than the number of
  threads, and the comparison \<open>pthread_count == i\<close> is one short of "they are all
  started" (the comment of lines 157 to 160): here one thread exists, none has registered,
  and the waiting loop finds \<open>all_running\<close> at its first poll.
\<close>

lemma wait_one_short_after_stop:
  "create_loop env_one_then_pending 0 child_init = Proceed 0 child_one_then_pending \<and>
   created child_one_then_pending = 1 \<and>
   pthread_count_seen wait_env_none_started 0 = 0 \<and>
   wait_loop wait_env_none_started 0 0 child_one_then_pending =
     (All_running, 0, child_one_then_pending)"
  by (simp add: create_one_then_pending wait_loop.simps wait_env_none_started_def created_def
      child_one_then_pending_def)

section \<open>Registration of the pthreads\<close>

lemma process_inv_init: "process_inv n (process_init n)"
  by (simp add: process_inv_def process_init_def place_ok_def sum_list_replicate)

lemma sum_list_bump:
  "t < length ws \<Longrightarrow> sum_list (ws[t := Suc (ws ! t)]) = Suc (sum_list (ws::nat list))"
  by (simp add: sum_list_update)

lemma func_inv:
  assumes "process_inv n p" "t < n"
  shows "process_inv n (stress_exit_group_func t r p)"
proof -
  from assms have len: "length (places p) = n" "length (writes p) = n"
    and ok: "\<And>u. u < n \<Longrightarrow> place_ok p u"
    and cnt: "pthread_count p = of_nat (sum_list (writes p))"
    by (simp_all add: process_inv_def)
  have okt: "place_ok p t" using ok assms(2) .
  show ?thesis
  proof (cases "places p ! t")
    case At_lock
    have "place_ok (stress_exit_group_func t r p) u" if "u < n" for u
      using ok [OF that] okt At_lock len that assms(2)
      by (auto simp: stress_exit_group_func_def place_ok_def nth_list_update split: place.splits)
    then show ?thesis using At_lock len cnt
      by (simp add: process_inv_def) (simp add: stress_exit_group_func_def)
  next
    case At_read
    have "place_ok (stress_exit_group_func t r p) u" if "u < n" for u
      using ok [OF that] okt At_read len that assms(2)
      by (auto simp: stress_exit_group_func_def place_ok_def nth_list_update split: place.splits)
    then show ?thesis using At_read len cnt
      by (simp add: process_inv_def) (simp add: stress_exit_group_func_def)
  next
    case (At_write v)
    have "place_ok (stress_exit_group_func t r p) u" if "u < n" for u
      using ok [OF that] okt At_write len that assms(2)
      by (auto simp: stress_exit_group_func_def place_ok_def nth_list_update split: place.splits)
    moreover have "v = pthread_count p" using okt At_write by (simp add: place_ok_def)
    ultimately show ?thesis using At_write len cnt assms(2)
      by (simp add: process_inv_def) (simp add: stress_exit_group_func_def sum_list_bump)
  next
    case At_unlock
    have "place_ok (stress_exit_group_func t r p) u" if "u < n" for u
      using ok [OF that] okt At_unlock len that assms(2)
      by (auto simp: stress_exit_group_func_def place_ok_def nth_list_update split: place.splits)
    then show ?thesis using At_unlock len cnt
      by (simp add: process_inv_def) (simp add: stress_exit_group_func_def)
  next
    case At_while
    have "place_ok (stress_exit_group_func t r p) u" if "u < n" for u
      using ok [OF that] okt At_while len that assms(2)
      by (auto simp: stress_exit_group_func_def place_ok_def nth_list_update split: place.splits)
    then show ?thesis using At_while len cnt
      by (simp add: process_inv_def) (simp add: stress_exit_group_func_def)
  next
    case At_exit
    then show ?thesis using assms(1) by (simp add: stress_exit_group_func_def)
  qed
qed

lemma sched_step_inv:
  assumes "process_inv n p"
  shows "process_inv n (sched_step x p)"
proof (cases "exited p")
  case True
  then show ?thesis using assms by (simp add: sched_step_def)
next
  case False
  show ?thesis
  proof (cases x)
    case (Run_pthread t r)
    then show ?thesis using assms False func_inv [of n p t r]
      by (auto simp: sched_step_def process_inv_def)
  next
    case Main_unlock
    have "place_ok (p\<lparr>mutex := Nobody\<rparr>) u" if "u < n" "mutex p = Main_thread" for u
      using assms that by (auto simp: process_inv_def place_ok_def split: place.splits)
    then show ?thesis using assms False Main_unlock
      by (auto simp: sched_step_def process_inv_def)
  next
    case Main_stop_running
    have "place_ok (stop_running p) u" if "u < n" for u
      using assms that by (auto simp: process_inv_def place_ok_def stop_running_def split: place.splits)
    then show ?thesis using assms False Main_stop_running
      by (auto simp: sched_step_def process_inv_def stop_running_def)
  next
    case Main_exit_group
    have "place_ok (p\<lparr>exited := True\<rparr>) u" if "u < n" for u
      using assms that by (auto simp: process_inv_def place_ok_def split: place.splits)
    then show ?thesis using assms False Main_exit_group
      by (auto simp: sched_step_def process_inv_def)
  qed
qed

lemma run_sched_inv: "process_inv n p \<Longrightarrow> process_inv n (run_sched xs p)"
  unfolding run_sched_def by (induction xs arbitrary: p) (simp_all add: sched_step_inv)

lemma writes_kept:
  assumes "places p ! t = At_while \<or> places p ! t = At_exit" "t < length (places p)"
    "length (writes p) = length (places p)"
  shows "writes (sched_step x p) ! t = writes p ! t"
proof (cases x)
  case (Run_pthread u r)
  show ?thesis
  proof (cases "u = t")
    case True
    with assms Run_pthread show ?thesis
      by (auto simp: sched_step_def stress_exit_group_func_def)
  next
    case False
    with assms Run_pthread show ?thesis
      by (auto simp: sched_step_def stress_exit_group_func_def split: place.splits)
  qed
qed (simp_all add: sched_step_def stop_running_def)

text \<open>
  C5 (amended). In every interleaving of the main thread and \<open>n\<close> pthreads, with
  \<open>pthread_count++\<close> split into its read and its write: every pthread writes
  \<open>pthread_count\<close> at most once; a pthread that has taken the mutex has written exactly
  once when it comes to unlock; a pthread reads and writes the count only while it owns
  the mutex, and the value it is about to write from is the current count; a pthread
  whose \<open>pthread_mutex_lock\<close> returns non-zero goes to the loop without writing, and a
  pthread in the loop or in \<open>exit_group\<close> writes no more; and \<open>pthread_count\<close> always
  equals the number of writes made, so no registration is lost or half done.
\<close>

theorem registration_under_mutex:
  assumes "t < n"
  shows "(let p = run_sched xs (process_init n) in
            writes p ! t \<le> 1 \<and>
            (places p ! t = At_unlock \<longrightarrow> writes p ! t = 1) \<and>
            (places p ! t = At_read \<or> (\<exists>v. places p ! t = At_write v)
               \<longrightarrow> mutex p = Pthread t \<and> writes p ! t = 0) \<and>
            (\<forall>v. places p ! t = At_write v \<longrightarrow> v = pthread_count p) \<and>
            (places p ! t = At_lock \<and> r \<noteq> 0 \<longrightarrow>
               writes (stress_exit_group_func t r p) = writes p \<and>
               places (stress_exit_group_func t r p) ! t = At_while) \<and>
            (places p ! t = At_while \<or> places p ! t = At_exit \<longrightarrow>
               writes (sched_step x p) ! t = writes p ! t) \<and>
            pthread_count p = of_nat (sum_list (writes p)))"
proof -
  define p where "p = run_sched xs (process_init n)"
  have inv: "process_inv n p"
    unfolding p_def by (rule run_sched_inv) (rule process_inv_init)
  then have len: "length (places p) = n" "length (writes p) = n"
    and ok: "place_ok p t"
    and cnt: "pthread_count p = of_nat (sum_list (writes p))"
    using assms by (simp_all add: process_inv_def)
  have 1: "writes p ! t \<le> 1"
    using ok by (auto simp: place_ok_def split: place.splits)
  have 2: "places p ! t = At_unlock \<longrightarrow> writes p ! t = 1"
    using ok by (auto simp: place_ok_def)
  have 3: "places p ! t = At_read \<or> (\<exists>v. places p ! t = At_write v)
             \<longrightarrow> mutex p = Pthread t \<and> writes p ! t = 0"
    using ok by (auto simp: place_ok_def)
  have 4: "\<forall>v. places p ! t = At_write v \<longrightarrow> v = pthread_count p"
    using ok by (auto simp: place_ok_def)
  have 5: "places p ! t = At_lock \<and> r \<noteq> 0 \<longrightarrow>
             writes (stress_exit_group_func t r p) = writes p \<and>
             places (stress_exit_group_func t r p) ! t = At_while"
    using len assms by (simp add: stress_exit_group_func_def)
  have 6: "places p ! t = At_while \<or> places p ! t = At_exit \<longrightarrow>
             writes (sched_step x p) ! t = writes p ! t"
    using writes_kept [of p t x] len assms by simp
  from 1 2 3 4 5 6 cnt show ?thesis
    unfolding p_def [symmetric] Let_def by blast
qed

lemma run_two_register:
  "run_sched sched_two_register (process_init 2) =
     \<lparr>keep_running_flag = True, pthread_count = 2, mutex = Pthread 1,
      places = [At_while, At_unlock], writes = [1, 1], naps = [0, 0], exited = False\<rparr>"
  by (simp add: run_sched_def sched_two_register_def process_init_def sched_step_def
      stress_exit_group_func_def eval_nat_numeral)

theorem registration_under_mutex_witness:
  "(1::nat) < 2 \<and>
   places (run_sched sched_two_register (process_init 2)) ! 1 = At_unlock \<and>
   writes (run_sched sched_two_register (process_init 2)) ! 1 = 1 \<and>
   pthread_count (run_sched sched_two_register (process_init 2)) = 2"
  using registration_under_mutex [of 1 2 sched_two_register]
  by (simp add: run_two_register)

theorem registration_counterexample:
  "run_sched sched_lock_fails (process_init 1) =
     \<lparr>keep_running_flag = False, pthread_count = 0, mutex = Nobody,
      places = [At_exit], writes = [0], naps = [1], exited = True\<rparr>"
  by (simp add: run_sched_def sched_lock_fails_def process_init_def sched_step_def
      stress_exit_group_func_def stop_running_def STRESS_PTHREAD_EXIT_GROUP_MAX_def)

section \<open>The run flag\<close>

lemma sched_step_flag_cleared:
  "\<not> keep_running_flag p \<Longrightarrow> \<not> keep_running_flag (sched_step x p)"
  by (cases x)
     (auto simp: sched_step_def stress_exit_group_func_def stop_running_def split: place.splits)

lemma run_sched_flag_cleared:
  "\<not> keep_running_flag p \<Longrightarrow> \<not> keep_running_flag (run_sched xs p)"
  unfolding run_sched_def
  by (induction xs arbitrary: p) (simp_all add: sched_step_flag_cleared)

lemma stop_running_funpow: "(stop_running ^^ Suc n) s = stop_running s"
  by (induction n) (simp_all add: stop_running_def)

text \<open>
  C6. Clearing the run flag is idempotent: one or more calls of \<open>stop_running\<close> leave
  the state of a single call, and \<open>keep_running\<close> after it returns false and changes
  nothing. The flag is level-triggered: after \<open>stop_running\<close>, whatever the threads and
  the main thread do next, in any order and for any length of time, the flag is still
  cleared, and a pthread that then tests it in its loop leaves the loop and ends the
  process by \<open>exit_group\<close>.
\<close>

theorem cancellation_level_triggered:
  "(stop_running ^^ Suc n) s = stop_running s \<and>
   keep_running pending (stop_running s) = (False, stop_running s) \<and>
   (let p' = run_sched xs (stop_running p) in
      \<not> keep_running_flag p' \<and>
      (\<not> exited p' \<and> t < length (places p') \<and> places p' ! t = At_while \<longrightarrow>
         places (sched_step (Run_pthread t r) p') ! t = At_exit \<and>
         exited (sched_step (Run_pthread t r) p')))"
proof -
  define p' where "p' = run_sched xs (stop_running p)"
  have flag: "\<not> keep_running_flag p'"
    unfolding p'_def by (rule run_sched_flag_cleared) (simp add: stop_running_def)
  have "places (sched_step (Run_pthread t r) p') ! t = At_exit \<and>
        exited (sched_step (Run_pthread t r) p')"
    if "\<not> exited p'" "t < length (places p')" "places p' ! t = At_while"
    using that flag by (simp add: sched_step_def stress_exit_group_func_def)
  moreover have "keep_running pending (stop_running s) = (False, stop_running s)"
    by (simp add: keep_running_def stop_running_def)
  ultimately show ?thesis
    using flag stop_running_funpow [of n s] unfolding p'_def [symmetric] Let_def by blast
qed

lemma run_one_registers:
  "run_sched sched_one_registers (process_init 1) =
     \<lparr>keep_running_flag = True, pthread_count = 1, mutex = Nobody,
      places = [At_while], writes = [1], naps = [1], exited = False\<rparr>"
  by (simp add: run_sched_def sched_one_registers_def process_init_def sched_step_def
      stress_exit_group_func_def STRESS_PTHREAD_EXIT_GROUP_MAX_def)

lemma run_set_again:
  "run_sched sched_set_again (stop_running (run_sched sched_one_registers (process_init 1))) =
     \<lparr>keep_running_flag = False, pthread_count = 1, mutex = Nobody,
      places = [At_while], writes = [1], naps = [1], exited = False\<rparr>"
  by (simp only: run_one_registers)
     (simp add: run_sched_def sched_set_again_def sched_step_def stop_running_def)

theorem cancellation_level_triggered_witness:
  "places (run_sched sched_set_again
             (stop_running (run_sched sched_one_registers (process_init 1)))) ! 0 = At_while \<and>
   sched_step (Run_pthread 0 0)
     (run_sched sched_set_again
        (stop_running (run_sched sched_one_registers (process_init 1)))) =
     \<lparr>keep_running_flag = False, pthread_count = 1, mutex = Nobody,
      places = [At_exit], writes = [1], naps = [1], exited = True\<rparr>"
  using cancellation_level_triggered
    [of 0 "child_init" False sched_set_again "run_sched sched_one_registers (process_init 1)" 0 0]
  by (simp only: run_set_again) (simp add: sched_step_def stress_exit_group_func_def)

section \<open>The qsort stressor: invariant\<close>

lemma qsort_inv_init: "qsort_inv qsort_init"
  by (simp add: qsort_inv_def point_inv_def qsort_init_def)

lemma statement_inv: "qsort_inv s \<Longrightarrow> qsort_inv (statement a b s)"
  by (cases "point s")
     (auto simp: qsort_inv_def point_inv_def loop_inv_def statement_def)

lemma handler_inv:
  "qsort_inv s \<Longrightarrow> handler_installed s \<Longrightarrow> running s \<Longrightarrow> qsort_inv (stress_qsort_handler s)"
  by (cases "point s")
     (auto simp: qsort_inv_def point_inv_def loop_inv_def stress_qsort_handler_def running_def)

lemma qstep_inv: "qsort_inv s \<Longrightarrow> qsort_inv (qstep a x s)"
  by (cases x) (simp_all add: qstep_def statement_inv handler_inv)

lemma stress_qsort_inv: "qsort_inv s \<Longrightarrow> qsort_inv (stress_qsort a xs s)"
  unfolding stress_qsort_def
  by (induction xs arbitrary: s) (simp_all add: qstep_inv)

lemma stress_qsort_append:
  "stress_qsort a (xs @ ys) s = stress_qsort a ys (stress_qsort a xs s)"
  by (simp add: stress_qsort_def)

lemma qstep_counter:
  "counter (qstep a x s) =
     (if point s = At_inc_counter \<and> x \<noteq> Sigalrm then Suc (counter s) else counter s)"
  by (cases x; cases "point s")
     (auto simp: qstep_def statement_def stress_qsort_handler_def)

lemma stress_qsort_counter_mono: "counter s \<le> counter (stress_qsort a ys s)"
  unfolding stress_qsort_def
proof (induction ys arbitrary: s)
  case Nil
  then show ?case by simp
next
  case (Cons y ys)
  have "counter s \<le> counter (qstep a y s)" by (simp add: qstep_counter)
  also have "\<dots> \<le> counter (fold (qstep a) ys (qstep a y s))" by (rule Cons.IH)
  finally show ?case by simp
qed




section \<open>The qsort stressor: the bogo-op counter\<close>

lemma sort_error_replicate [simp]: "\<not> sort_error (replicate n x)"
proof (induction n)
  case 0
  then show ?case by simp
next
  case (Suc n)
  then show ?case by (cases n) simp_all
qed

lemma reverse_sort_error_replicate [simp]: "\<not> reverse_sort_error (replicate n x)"
proof (induction n)
  case 0
  then show ?case by simp
next
  case (Suc n)
  then show ?case by (cases n) simp_all
qed

lemma run_to_loop:
  "stress_qsort qsort_args_zero inputs_to_loop qsort_init =
     \<lparr>point = At_sort, do_jmp = True, jmp_env_set = True, handler_installed = True,
      data = replicate 1024 0, counter = 0, pr_fails = [], sorts_done = 0, jumps = 0\<rparr>"
  by (simp add: stress_qsort_def inputs_to_loop_def qsort_init_def qstep_def statement_def
      qsort_args_zero_def)

lemma run_iteration:
  "stress_qsort qsort_args_zero (inputs_to_loop @ inputs_iteration) qsort_init =
     \<lparr>point = At_keep_stressing, do_jmp = True, jmp_env_set = True, handler_installed = True,
      data = replicate 1024 0, counter = 1, pr_fails = [], sorts_done = 4, jumps = 0\<rparr>"
  by (simp only: stress_qsort_append run_to_loop)
     (simp add: stress_qsort_def inputs_iteration_def qstep_def statement_def
      qsort_args_zero_def)

text \<open>
  C7 (amended). Along every run of \<open>stress_qsort\<close> the counter never decreases. It
  changes only when the statement \<open>inc_counter\<close> runs, and then by one; that statement is
  reached only from the third \<open>keep_stressing_flag()\<close> check returning true, when the four
  sorts of the iteration have run. An iteration left at any of the three checks, the third
  of which comes after the last sort of the iteration, or left by the jump of the SIGALRM
  handler, is not counted: the number of sorts that have run is at least four times the
  counter and at most four more.
\<close>

theorem counter_counts_whole_iterations:
  "(let s = stress_qsort a xs qsort_init in
      counter s \<le> counter (stress_qsort a ys s) \<and>
      counter (qstep a x s) =
        (if point s = At_inc_counter \<and> x \<noteq> Sigalrm then Suc (counter s) else counter s) \<and>
      (point (qstep a x s) = At_inc_counter \<longrightarrow> point s = At_flag3 \<and> x = Statement True) \<and>
      (point s = At_inc_counter \<longrightarrow> sorts_done s = 4 * counter s + 4) \<and>
      (point s = At_keep_stressing \<longrightarrow> sorts_done s = 4 * counter s) \<and>
      4 * counter s \<le> sorts_done s \<and> sorts_done s \<le> 4 * counter s + 4)"
proof -
  define s where "s = stress_qsort a xs qsort_init"
  have inv: "qsort_inv s"
    unfolding s_def by (rule stress_qsort_inv) (rule qsort_inv_init)
  have 1: "counter s \<le> counter (stress_qsort a ys s)"
    by (rule stress_qsort_counter_mono)
  have 2: "point (qstep a x s) = At_inc_counter \<longrightarrow> point s = At_flag3 \<and> x = Statement True"
    using inv
    by (cases x; cases "point s")
       (auto simp: qstep_def statement_def stress_qsort_handler_def qsort_inv_def point_inv_def
          loop_inv_def running_def split: if_splits)
  have 3: "point s = At_inc_counter \<longrightarrow> sorts_done s = 4 * counter s + 4"
    using inv by (auto simp: qsort_inv_def point_inv_def loop_inv_def)
  have 4: "point s = At_keep_stressing \<longrightarrow> sorts_done s = 4 * counter s"
    using inv by (auto simp: qsort_inv_def point_inv_def loop_inv_def)
  have 5: "4 * counter s \<le> sorts_done s \<and> sorts_done s \<le> 4 * counter s + 4"
    using inv by (simp add: qsort_inv_def)
  from 1 2 3 4 5 qstep_counter [of a x s] show ?thesis
    unfolding s_def [symmetric] Let_def by blast
qed

theorem counter_counts_whole_iterations_witness:
  "point (stress_qsort qsort_args_zero (inputs_to_loop @ inputs_iteration) qsort_init) =
     At_keep_stressing \<and>
   counter (stress_qsort qsort_args_zero (inputs_to_loop @ inputs_iteration) qsort_init) = 1 \<and>
   sorts_done (stress_qsort qsort_args_zero (inputs_to_loop @ inputs_iteration) qsort_init) = 4"
  using counter_counts_whole_iterations
    [of qsort_args_zero "inputs_to_loop @ inputs_iteration" "[]" Sigalrm]
  by (simp only: run_iteration) simp

theorem counter_counterexample:
  "stress_qsort qsort_args_zero inputs_stop_at_flag3 qsort_init =
     \<lparr>point = Returned EXIT_SUCCESS, do_jmp = False, jmp_env_set = True,
      handler_installed = False, data = replicate 1024 0, counter = 0, pr_fails = [],
      sorts_done = 4, jumps = 0\<rparr>"
  unfolding inputs_stop_at_flag3_def
  by (simp only: stress_qsort_append run_to_loop)
     (simp add: stress_qsort_def qstep_def statement_def qsort_args_zero_def)

section \<open>The qsort stressor: verification\<close>

lemma control_eqD:
  assumes "control s = control s'"
  shows "point s' = point s" "do_jmp s' = do_jmp s" "jmp_env_set s' = jmp_env_set s"
    "handler_installed s' = handler_installed s" "counter s' = counter s"
    "sorts_done s' = sorts_done s" "jumps s' = jumps s"
  using assms by (simp_all add: control_def)

lemma statement_control:
  assumes "control s = control s'"
  shows "control (statement a b s) = control (statement a' b s')"
  using control_eqD [OF assms]
  by (cases "point s") (simp_all add: statement_def control_def)

lemma handler_control:
  assumes "control s = control s'"
  shows "control (stress_qsort_handler s) = control (stress_qsort_handler s')"
  using control_eqD [OF assms]
  by (simp add: stress_qsort_handler_def control_def)

lemma qstep_control:
  assumes "control s = control s'"
  shows "control (qstep a x s) = control (qstep a' x s')"
proof (cases x)
  case Sigalrm
  have same: "running s' = running s" "handler_installed s' = handler_installed s"
    using control_eqD [OF assms] by (simp_all add: running_def)
  show ?thesis
  proof (cases "handler_installed s \<and> running s")
    case True
    with Sigalrm same show ?thesis
      using handler_control [OF assms] by (simp add: qstep_def)
  next
    case False
    with Sigalrm same assms show ?thesis by (auto simp add: qstep_def)
  qed
next
  case (Statement b)
  then show ?thesis
    using statement_control [OF assms, of a b a'] by (simp add: qstep_def)
qed

lemma stress_qsort_control:
  "control s = control s' \<Longrightarrow> control (stress_qsort a xs s) = control (stress_qsort a' xs s')"
  unfolding stress_qsort_def
proof (induction xs arbitrary: s s')
  case Nil
  then show ?case by simp
next
  case (Cons x xs)
  from Cons.prems have "control (qstep a x s) = control (qstep a' x s')"
    by (rule qstep_control)
  then have "control (fold (qstep a) xs (qstep a x s)) = control (fold (qstep a') xs (qstep a' x s'))"
    by (rule Cons.IH)
  then show ?case by simp
qed

text \<open>
  C8. With the verify option set, a verification pass that finds a pair in the wrong order
  adds the line of \<open>pr_fail\<close> for that check (one text for the ascending check, another
  for the two descending checks) and goes on to the flag check that follows, from where the
  loop continues with the next sort when the flag allows. A verification failure never ends
  the run: on the same inputs, the program point, \<open>do_jmp\<close>, the handler, the counter and
  the numbers of sorts and jumps are the same as in a run without verification.
\<close>

theorem verification_failure_not_fatal:
  "control (stress_qsort a xs qsort_init) = control (stress_qsort (a\<lparr>verify := False\<rparr>) xs qsort_init) \<and>
   (verify a \<and> point s = At_verify_sort \<and> sort_error (data s) \<longrightarrow>
      statement a b s = s\<lparr>pr_fails := pr_fails s @ [Sort_error_detected], point := At_flag1\<rparr> \<and>
      point (statement a True (statement a b s)) = At_rev_sort) \<and>
   (verify a \<and> point s = At_verify_rev \<and> reverse_sort_error (data s) \<longrightarrow>
      statement a b s =
        s\<lparr>pr_fails := pr_fails s @ [Reverse_sort_error_detected], point := At_flag2\<rparr> \<and>
      point (statement a True (statement a b s)) = At_byte_sort) \<and>
   (verify a \<and> point s = At_verify_rev2 \<and> reverse_sort_error (data s) \<longrightarrow>
      statement a b s =
        s\<lparr>pr_fails := pr_fails s @ [Reverse_sort_error_detected], point := At_flag3\<rparr> \<and>
      point (statement a True (statement a b s)) = At_inc_counter)"
proof -
  have "control (stress_qsort a xs qsort_init) =
        control (stress_qsort (a\<lparr>verify := False\<rparr>) xs qsort_init)"
    by (rule stress_qsort_control) simp
  then show ?thesis by (simp add: statement_def)
qed

lemma run_to_verify_faulty:
  "stress_qsort qsort_args_faulty inputs_to_verify qsort_init =
     \<lparr>point = At_verify_sort, do_jmp = True, jmp_env_set = True, handler_installed = True,
      data = 2 # 1 # replicate 1022 0, counter = 0, pr_fails = [], sorts_done = 1, jumps = 0\<rparr>"
  by (simp add: stress_qsort_def inputs_to_verify_def inputs_to_loop_def qsort_init_def
      qstep_def statement_def qsort_args_faulty_def)

theorem verification_failure_not_fatal_witness:
  "verify qsort_args_faulty \<and>
   point (stress_qsort qsort_args_faulty inputs_to_verify qsort_init) = At_verify_sort \<and>
   sort_error (data (stress_qsort qsort_args_faulty inputs_to_verify qsort_init)) \<and>
   pr_fails (statement qsort_args_faulty True
     (stress_qsort qsort_args_faulty inputs_to_verify qsort_init)) = [Sort_error_detected] \<and>
   point (statement qsort_args_faulty True (statement qsort_args_faulty True
     (stress_qsort qsort_args_faulty inputs_to_verify qsort_init))) = At_rev_sort"
  using verification_failure_not_fatal
    [of qsort_args_faulty "[]" "stress_qsort qsort_args_faulty inputs_to_verify qsort_init" True,
     THEN conjunct2, THEN conjunct1]
  by (simp only: run_to_verify_faulty) (simp add: qsort_args_faulty_def statement_def)

section \<open>The qsort stressor: SIGALRM\<close>

text \<open>
  C9 (amended). In the qsort stressor the loop is left in two ways only. When SIGALRM is
  delivered while the function is in the loop, \<open>stress_qsort_handler\<close> clears \<open>do_jmp\<close>
  and jumps by \<open>siglongjmp\<close> to the point saved by \<open>sigsetjmp\<close>, whatever sort or check
  was in progress. Otherwise a statement leaves the loop only when it is one of the three
  \<open>keep_stressing_flag()\<close> checks or the \<open>keep_stressing(args)\<close> of the loop condition
  and returns false, and it leaves to line 162.
\<close>

theorem loop_left_by_jump_or_poll:
  "(let s = stress_qsort a xs qsort_init in
      in_loop (point s) \<longrightarrow>
        qstep a Sigalrm s = s\<lparr>do_jmp := False, jumps := Suc (jumps s), point := At_jumped\<rparr> \<and>
        (\<not> in_loop (point (qstep a (Statement b) s)) \<longrightarrow>
           \<not> b \<and> point (qstep a (Statement b) s) = At_clear_do_jmp \<and>
           (point s = At_flag1 \<or> point s = At_flag2 \<or> point s = At_flag3 \<or>
            point s = At_keep_stressing)))"
proof -
  define s where "s = stress_qsort a xs qsort_init"
  have inv: "qsort_inv s"
    unfolding s_def by (rule stress_qsort_inv) (rule qsort_inv_init)
  have jump: "qstep a Sigalrm s = s\<lparr>do_jmp := False, jumps := Suc (jumps s), point := At_jumped\<rparr>"
    if "in_loop (point s)"
    using that inv
    by (auto simp: in_loop_def qsort_inv_def point_inv_def loop_inv_def qstep_def
        stress_qsort_handler_def running_def)
  have poll: "\<not> b \<and> point (qstep a (Statement b) s) = At_clear_do_jmp \<and>
           (point s = At_flag1 \<or> point s = At_flag2 \<or> point s = At_flag3 \<or>
            point s = At_keep_stressing)"
    if "in_loop (point s)" "\<not> in_loop (point (qstep a (Statement b) s))"
    using that
    by (auto simp: in_loop_def qstep_def statement_def split: if_splits)
  from jump poll show ?thesis
    unfolding s_def [symmetric] Let_def by blast
qed

theorem loop_left_by_jump_or_poll_witness:
  "in_loop (point (stress_qsort qsort_args_zero inputs_to_loop qsort_init)) \<and>
   qstep qsort_args_zero Sigalrm (stress_qsort qsort_args_zero inputs_to_loop qsort_init) =
     \<lparr>point = At_jumped, do_jmp = False, jmp_env_set = True, handler_installed = True,
      data = replicate 1024 0, counter = 0, pr_fails = [], sorts_done = 0, jumps = 1\<rparr>"
  using loop_left_by_jump_or_poll [of qsort_args_zero inputs_to_loop True]
  by (simp only: run_to_loop Let_def) (simp add: in_loop_def)

lemma run_alarm_in_sort:
  "stress_qsort qsort_args_zero inputs_alarm_in_sort qsort_init =
     \<lparr>point = At_jumped, do_jmp = False, jmp_env_set = True, handler_installed = True,
      data = replicate 1024 0, counter = 0, pr_fails = [], sorts_done = 0, jumps = 1\<rparr>"
  unfolding inputs_alarm_in_sort_def
  by (simp only: stress_qsort_append run_to_loop)
     (simp add: stress_qsort_def qstep_def stress_qsort_handler_def running_def)

theorem interruption_counterexample:
  "point (stress_qsort qsort_args_zero inputs_to_loop qsort_init) = At_sort \<and>
   stress_qsort qsort_args_zero inputs_alarm_in_sort qsort_init =
     \<lparr>point = At_jumped, do_jmp = False, jmp_env_set = True, handler_installed = True,
      data = replicate 1024 0, counter = 0, pr_fails = [], sorts_done = 0, jumps = 1\<rparr>"
  by (simp only: run_alarm_in_sort run_to_loop) simp




section \<open>Killing and reaping\<close>

lemma stopped_at_mono: "stopped_at e signum t \<Longrightarrow> t \<le> t' \<Longrightarrow> stopped_at e signum t'"
  by (auto simp: stopped_at_def split: option.splits)

lemma wait_from_spec:
  assumes "wait_from e signum grace t = (b, t')" "t \<le> grace"
  shows "t \<le> t' \<and> t' \<le> grace \<and> (b \<longleftrightarrow> stopped_at e signum grace) \<and>
         (b \<longrightarrow> stopped_at e signum t') \<and> (\<not> b \<longrightarrow> t' = grace)"
  using assms
proof (induction e signum grace t rule: wait_from.induct)
  case (1 e signum grace t)
  show ?case
  proof (cases "stopped_at e signum t")
    case True
    with "1.prems" have "b" "t' = t"
      by (subst (asm) wait_from.simps; simp)+
    with True "1.prems"(2) stopped_at_mono [OF True "1.prems"(2)] show ?thesis by simp
  next
    case ns: False
    show ?thesis
    proof (cases "t < grace")
      case True
      with ns "1.prems" have rec: "wait_from e signum grace (Suc t) = (b, t')"
        by (subst (asm) wait_from.simps) simp
      from "1.IH" [OF ns True rec] True show ?thesis by simp
    next
      case False
      with ns "1.prems" have "\<not> b" "t' = t" "t = grace"
        by (subst (asm) wait_from.simps; simp)+
      with ns show ?thesis by simp
    qed
  qed
qed

lemma wait_and_reap_result:
  assumes "wait_and_reap (h, e) signum grace t = ((out, h', evs), t')" "t \<le> grace"
  shows "t \<le> t' \<and> t' \<le> grace \<and>
         out = (if stopped_at e signum grace then Reaped_clean else Force_killed) \<and>
         h' = h\<lparr>lifecycle_state := Reaped\<rparr> \<and>
         evs = replicate (Suc (t' - t)) (Ev_poll (pid h)) @
               (if stopped_at e signum grace then [] else [Ev_force_kill (pid h)]) @
               [Ev_reap (pid h)]"
proof -
  obtain b t1 where w: "wait_from e signum grace t = (b, t1)"
    by (cases "wait_from e signum grace t")
  from wait_from_spec [OF w assms(2)]
  have spec: "t \<le> t1" "t1 \<le> grace" "b \<longleftrightarrow> stopped_at e signum grace" by simp_all
  from assms(1) w spec show ?thesis
    by (cases b) (auto simp: wait_and_reap_def)
qed

text \<open>
  C1. \<open>kill_and_wait\<close> delivers the signal, polls at least once and at most once per
  interval of the grace period, force-kills the entity exactly when it has not stopped
  within the grace period, and reaps it last. It returns the clean outcome if the entity
  has stopped within the grace period and the forced one otherwise, and in both cases the
  handle is left \<open>Reaped\<close>, not \<open>Signal_sent\<close> or \<open>Escalated\<close>.
\<close>

theorem kill_and_wait_outcome:
  "(case kill_and_wait (h, e) signum grace of
      (out, h', evs) \<Rightarrow>
        lifecycle_state h' = Reaped \<and> pid h' = pid h \<and>
        out = (if stopped_at e signum grace then Reaped_clean else Force_killed) \<and>
        (\<exists>n\<le>grace.
           evs = Ev_signal (pid h) signum # replicate (Suc n) (Ev_poll (pid h)) @
                 (if out = Force_killed then [Ev_force_kill (pid h)] else []) @
                 [Ev_reap (pid h)]))"
proof -
  let ?h1 = "h\<lparr>lifecycle_state := Signal_sent\<rparr>"
  obtain out h' evs t' where w: "wait_and_reap (?h1, e) signum grace 0 = ((out, h', evs), t')"
    by (cases "wait_and_reap (?h1, e) signum grace 0") auto
  from wait_and_reap_result [OF w]
  have r: "t' \<le> grace"
    "out = (if stopped_at e signum grace then Reaped_clean else Force_killed)"
    "h' = ?h1\<lparr>lifecycle_state := Reaped\<rparr>"
    "evs = replicate (Suc t') (Ev_poll (pid h)) @
           (if stopped_at e signum grace then [] else [Ev_force_kill (pid h)]) @
           [Ev_reap (pid h)]"
    by simp_all
  have kw: "kill_and_wait (h, e) signum grace = (out, h', Ev_signal (pid h) signum # evs)"
    using w by (simp add: kill_and_wait_def send_signal_def)
  have "\<exists>n\<le>grace.
          Ev_signal (pid h) signum # evs =
            Ev_signal (pid h) signum # replicate (Suc n) (Ev_poll (pid h)) @
            (if out = Force_killed then [Ev_force_kill (pid h)] else []) @ [Ev_reap (pid h)]"
    using r by (intro exI [of _ t']) simp
  with r kw show ?thesis by simp
qed

lemma wait_all_results:
  assumes "t \<le> grace"
  shows "map result_of (wait_all hes signum grace t) =
           map (\<lambda>he. (if stopped_at (snd he) signum grace then Reaped_clean else Force_killed,
                        (fst he)\<lparr>lifecycle_state := Reaped\<rparr>)) hes \<and>
         (\<forall>ev \<in> set (concat (map events_of (wait_all hes signum grace t))). \<not> is_signal ev)"
  using assms
proof (induction hes arbitrary: t)
  case Nil
  then show ?case by simp
next
  case (Cons he hes)
  obtain h e where he: "he = (h, e)" by (cases he)
  obtain out h' evs t' where w: "wait_and_reap (h, e) signum grace t = ((out, h', evs), t')"
    by (cases "wait_and_reap (h, e) signum grace t") auto
  from wait_and_reap_result [OF w Cons.prems]
  have r: "t' \<le> grace"
    "out = (if stopped_at e signum grace then Reaped_clean else Force_killed)"
    "h' = h\<lparr>lifecycle_state := Reaped\<rparr>"
    "evs = replicate (Suc (t' - t)) (Ev_poll (pid h)) @
           (if stopped_at e signum grace then [] else [Ev_force_kill (pid h)]) @
           [Ev_reap (pid h)]"
    by simp_all
  have nosig: "\<forall>ev \<in> set evs. \<not> is_signal ev"
    unfolding r(4) by (auto simp: is_signal_def)
  have unfold: "wait_all (he # hes) signum grace t = (out, h', evs) # wait_all hes signum grace t'"
    using w he by simp
  from Cons.IH [OF r(1)] have ih:
    "map result_of (wait_all hes signum grace t') =
       map (\<lambda>he. (if stopped_at (snd he) signum grace then Reaped_clean else Force_killed,
                    (fst he)\<lparr>lifecycle_state := Reaped\<rparr>)) hes"
    "\<forall>ev \<in> set (concat (map events_of (wait_all hes signum grace t'))). \<not> is_signal ev"
    by simp_all
  have "result_of (out, h', evs) =
        (if stopped_at (snd he) signum grace then Reaped_clean else Force_killed,
         (fst he)\<lparr>lifecycle_state := Reaped\<rparr>)"
    using r(2,3) he by (simp add: result_of_def)
  moreover have "events_of (out, h', evs) = evs" by (simp add: events_of_def)
  ultimately show ?case
    unfolding unfold using ih nosig by auto
qed

lemma kill_and_wait_result:
  "result_of (kill_and_wait he signum grace) =
     (if stopped_at (snd he) signum grace then Reaped_clean else Force_killed,
      (fst he)\<lparr>lifecycle_state := Reaped\<rparr>)"
proof -
  obtain h e where he: "he = (h, e)" by (cases he)
  let ?h1 = "h\<lparr>lifecycle_state := Signal_sent\<rparr>"
  obtain out h' evs t' where w: "wait_and_reap (?h1, e) signum grace 0 = ((out, h', evs), t')"
    by (cases "wait_and_reap (?h1, e) signum grace 0") auto
  from wait_and_reap_result [OF w] w he show ?thesis
    by (simp add: kill_and_wait_def send_signal_def result_of_def)
qed

text \<open>
  C2. In the events of \<open>kill_and_wait_many\<close> the signal deliveries come first, one for
  each handle of the batch in order, and nothing after them is a signal delivery: every
  poll, force-kill and reap follows every signal. The result of each handle is the one
  that \<open>kill_and_wait\<close> gives for that handle alone, whatever happens to the other
  handles of the batch, a failed delivery among them included.
\<close>

theorem kill_and_wait_many_order:
  "(case kill_and_wait_many hes signum grace of
      (res, evs) \<Rightarrow>
        res = map (\<lambda>he. result_of (kill_and_wait he signum grace)) hes \<and>
        take (length hes) evs = map (\<lambda>he. Ev_signal (pid (fst he)) signum) hes \<and>
        (\<forall>ev \<in> set (drop (length hes) evs). \<not> is_signal ev))"
proof -
  let ?sent = "map (\<lambda>he. send_signal he signum) hes"
  let ?waited = "wait_all (map fst ?sent) signum grace 0"
  have sent_snd: "map snd ?sent = map (\<lambda>he. Ev_signal (pid (fst he)) signum) hes"
    by (simp add: send_signal_def case_prod_unfold)
  from wait_all_results [of 0 grace "map fst ?sent" signum]
  have res: "map result_of ?waited =
        map (\<lambda>he. (if stopped_at (snd he) signum grace then Reaped_clean else Force_killed,
                     (fst he)\<lparr>lifecycle_state := Reaped\<rparr>)) (map fst ?sent)"
    and nosig: "\<forall>ev \<in> set (concat (map events_of ?waited)). \<not> is_signal ev"
    by simp_all
  have "map result_of ?waited = map (\<lambda>he. result_of (kill_and_wait he signum grace)) hes"
    unfolding res by (simp add: kill_and_wait_result send_signal_def case_prod_unfold)
  moreover have "length (map snd ?sent) = length hes" by simp
  ultimately show ?thesis
    using nosig sent_snd by (simp add: kill_and_wait_many_def Let_def)
qed

lemma run_batch_of_three:
  "kill_and_wait_many batch_of_three 15 2 =
     ([(Force_killed, \<lparr>pid = 101, lifecycle_state = Reaped\<rparr>),
       (Reaped_clean, \<lparr>pid = 102, lifecycle_state = Reaped\<rparr>),
       (Reaped_clean, \<lparr>pid = 103, lifecycle_state = Reaped\<rparr>)],
      [Ev_signal 101 15, Ev_signal 102 15, Ev_signal 103 15,
       Ev_poll 101, Ev_poll 101, Ev_poll 101, Ev_force_kill 101, Ev_reap 101,
       Ev_poll 102, Ev_reap 102,
       Ev_poll 103, Ev_reap 103])"
  by (simp add: kill_and_wait_many_def batch_of_three_def send_signal_def wait_and_reap_def
      wait_from.simps stopped_at_def kill_def entity_unreachable_def entity_prompt_def
      entity_gone_def result_of_def events_of_def Let_def eval_nat_numeral)

theorem kill_and_wait_many_order_witness:
  "fst (kill_and_wait_many batch_of_three 15 2) =
     [(Force_killed, \<lparr>pid = 101, lifecycle_state = Reaped\<rparr>),
      (Reaped_clean, \<lparr>pid = 102, lifecycle_state = Reaped\<rparr>),
      (Reaped_clean, \<lparr>pid = 103, lifecycle_state = Reaped\<rparr>)] \<and>
   take 3 (snd (kill_and_wait_many batch_of_three 15 2)) =
     [Ev_signal 101 15, Ev_signal 102 15, Ev_signal 103 15] \<and>
   filter is_signal (drop 3 (snd (kill_and_wait_many batch_of_three 15 2))) = []"
  using kill_and_wait_many_order [where hes = batch_of_three and signum = 15 and grace = 2]
  by (simp only: run_batch_of_three) (simp add: batch_of_three_def is_signal_def)

lemma run_kill_deaf:
  "kill_and_wait (\<lparr>pid = 7, lifecycle_state = Running\<rparr>, entity_deaf) 15 2 =
     (Force_killed, \<lparr>pid = 7, lifecycle_state = Reaped\<rparr>,
      [Ev_signal 7 15, Ev_poll 7, Ev_poll 7, Ev_poll 7, Ev_force_kill 7, Ev_reap 7])"
  by (simp add: kill_and_wait_def send_signal_def wait_and_reap_def wait_from.simps
      stopped_at_def kill_def entity_deaf_def eval_nat_numeral)

theorem kill_and_wait_outcome_witness:
  "\<not> stopped_at entity_deaf 15 2 \<and>
   kill_and_wait (\<lparr>pid = 7, lifecycle_state = Running\<rparr>, entity_deaf) 15 2 =
     (Force_killed, \<lparr>pid = 7, lifecycle_state = Reaped\<rparr>,
      [Ev_signal 7 15, Ev_poll 7, Ev_poll 7, Ev_poll 7, Ev_force_kill 7, Ev_reap 7])"
  using kill_and_wait_outcome
    [where h = "\<lparr>pid = 7, lifecycle_state = Running\<rparr>" and e = entity_deaf
       and signum = 15 and grace = 2]
  by (simp only: run_kill_deaf) (simp add: stopped_at_def entity_deaf_def)

end
